theory Spec2Isabelle
  imports Complex_Main "HOL-Library.Multiset"
begin

section \<open>Data model of \<open>src/App.jsx\<close>\<close>

text \<open>
  A colour is the JSON object the colour API answers with. The program reads
  \<open>name.value\<close> (the identity of a sample), \<open>hsl.h\<close> (the key the result list is
  sorted by) and, for rendering only, \<open>hex.value\<close>. Hues are the integers the search
  computes with: JavaScript numbers that hold integers, hence \<open>int\<close>, with the
  arithmetic of doubles (section \<open>JavaScript numbers\<close>).
\<close>

record color =
  name_value :: string
  hsl_h :: int
  hex_value :: string

text \<open>
  One invocation of the async function \<open>findIntervals(start, end)\<close> is, between two
  turns of the event loop, in one of these states:
  \<^item> \<open>AwaitStart start end\<close>: suspended at \<open>await getColor(start)\<close> on a fetch it issued;
  \<^item> \<open>AwaitEnd start end colorStart\<close>: suspended at \<open>await getColor(end)\<close>;
  \<^item> \<open>Join l r\<close>: suspended at \<open>await Promise.all([l, r])\<close>;
  \<^item> \<open>Done\<close>: returned (its promise is fulfilled);
  \<^item> \<open>Failed\<close>: an awaited promise rejected and, there being no \<open>try\<close>, the
    invocation's own promise is rejected;
  \<^item> \<open>Forever\<close>: the invocation has called itself for its own interval, with both
    samples in the cache, and does so again and again: it never returns, and the turn
    it runs in never ends (section \<open>The recursive search\<close>).
\<close>

datatype task =
    AwaitStart int int
  | AwaitEnd int int color
  | Join task task
  | Done
  | Failed
  | Forever

datatype settled = Pending | Fulfilled | Rejected

text \<open>
  \<open>Promise.all\<close> rejects as soon as one member rejects and fulfils when all members
  have fulfilled. It does not stop the other members.
\<close>

fun status :: "task \<Rightarrow> settled" where
  "status (AwaitStart start end) = Pending"
| "status (AwaitEnd start end colorStart) = Pending"
| "status Done = Fulfilled"
| "status Failed = Rejected"
| "status Forever = Pending"
| "status (Join l r) =
     (if status l = Rejected \<or> status r = Rejected then Rejected
      else if status l = Fulfilled \<and> status r = Fulfilled then Fulfilled
      else Pending)"

text \<open>
  The state of the hook \<open>useColorsDivideAndConquer\<close>. \<open>colors\<close> and \<open>loading\<close> are
  its React state, \<open>cache\<close> is \<open>cacheRef.current\<close>, one \<open>Map\<close> for the whole life of
  the component. Every run of the effect (a generation) has its own closure variables
  \<open>cancelled\<close> and \<open>seen\<close>; they are indexed by the number of the run. \<open>deps\<close> is the
  pair \<open>(debouncedSaturation, debouncedLightness)\<close> the run closes over, \<open>root\<close> the
  task of the run's anonymous async function (the \<open>Promise.all\<close> of the two root
  searches), and \<open>fetched\<close> a log of the hues the run has passed to \<open>fetchColor\<close>.
  \<open>cancelled\<close> also stands for \<open>abortController.signal.aborted\<close>: the cleanup sets
  both in one synchronous block.
\<close>

record app =
  colors :: "color list"
  loading :: bool
  cache :: "int \<rightharpoonup> color"
  runs :: nat
  deps :: "nat \<Rightarrow> int \<times> int"
  cancelled :: "nat \<Rightarrow> bool"
  seen :: "nat \<Rightarrow> string set"
  fetched :: "nat \<Rightarrow> int list"
  root :: "nat \<Rightarrow> task"

section \<open>The helpers of the effect\<close>

text \<open>
  \<open>fetchColor\<close> (lines 20-22) is called by run \<open>g\<close> for \<open>hue\<close>: a request to the
  colour API leaves. What the hook keeps of it is the entry in the log.
\<close>

definition fetchColor :: "nat \<Rightarrow> int \<Rightarrow> app \<Rightarrow> app" where
  "fetchColor g hue st = st\<lparr>fetched := (fetched st)(g := fetched st g @ [hue])\<rparr>"

text \<open>
  \<open>getColor\<close> (lines 145-150) has one suspension point, the \<open>await fetchColor(...)\<close>.
  \<open>getColor_call\<close> is the part before it: a hit returns the cached colour, a miss
  calls \<open>fetchColor\<close> and leaves the caller waiting (\<open>None\<close>). \<open>getColor_resume\<close> is
  the part after it, run when the fetch has fulfilled with \<open>data\<close>.
\<close>

definition getColor_call :: "nat \<Rightarrow> int \<Rightarrow> app \<Rightarrow> color option \<times> app" where
  "getColor_call g hue st =
     (case cache st hue of
        Some data \<Rightarrow> (Some data, st)
      | None \<Rightarrow> (None, fetchColor g hue st))"

definition getColor_resume :: "int \<Rightarrow> color \<Rightarrow> app \<Rightarrow> app" where
  "getColor_resume hue data st = st\<lparr>cache := (cache st)(hue \<mapsto> data)\<rparr>"

text \<open>\<open>addColorIfUnique\<close> (lines 153-158).\<close>

definition addColorIfUnique :: "nat \<Rightarrow> color \<Rightarrow> app \<Rightarrow> app" where
  "addColorIfUnique g color st =
     (if name_value color \<notin> seen st g
      then st\<lparr>seen := (seen st)(g := insert (name_value color) (seen st g)),
              colors := colors st @ [color]\<rparr>
      else st)"

section \<open>JavaScript numbers\<close>

text \<open>
  The numbers of the program are IEEE 754 doubles. A double has 53 significant bits:
  it holds every integer up to \<open>2 ^ 53\<close> in magnitude, and beyond that only the
  multiples of a power of two, \<open>ulp m\<close> for the magnitude \<open>m\<close> (2 from \<open>2 ^ 53\<close>,
  4 from \<open>2 ^ 54\<close>, and so on). The range of the exponent is not modelled: a double
  overflows at \<open>2 ^ 1024\<close>, and the numbers considered here are below \<open>2 ^ 1023\<close>
  in magnitude, so that no sum of two of them overflows.
\<close>

function ulp :: "nat \<Rightarrow> nat" where
  "ulp m = (if m < 2 ^ 53 then 1 else 2 * ulp (m div 2))"
  by pat_completeness auto
termination
  by (relation "measure id") auto

declare ulp.simps [simp del]

text \<open>
  The double nearest to the integer \<open>m\<close>; of two that are equally near, the one with
  the even significand (the rounding mode of JavaScript).
\<close>

definition nearest :: "nat \<Rightarrow> nat" where
  "nearest m =
     (let u = ulp m; q = m div u; r = m mod u
      in if 2 * r < u \<or> (2 * r = u \<and> even q) then q * u else (q + 1) * u)"

text \<open>
  What \<open>+\<close> and \<open>-\<close> return when the exact result is the integer \<open>n\<close>: the double
  nearest to it. Rounding is symmetric about zero.
\<close>

definition js_round :: "int \<Rightarrow> int" where
  "js_round n = (if n < 0 then - int (nearest (nat (- n))) else int (nearest (nat n)))"

text \<open>The integers that are JavaScript numbers.\<close>

definition js_number :: "int \<Rightarrow> bool" where
  "js_number n \<longleftrightarrow> js_round n = n"

text \<open>
  \<open>Math.floor((start + end) / 2)\<close>: the sum is rounded to a double; halving a
  double is exact; \<open>div\<close> on \<open>int\<close> rounds down as \<open>Math.floor\<close> does.
\<close>

definition mid_point :: "int \<Rightarrow> int \<Rightarrow> int" where
  "mid_point start end = js_round (start + end) div 2"

text \<open>\<open>mid + 1\<close>, rounded to a double.\<close>

definition plus_one :: "int \<Rightarrow> int" where
  "plus_one mid = js_round (mid + 1)"

text \<open>
  Both halves \<open>[start, mid]\<close> and \<open>[mid + 1, end]\<close>, as the program computes them, lie
  inside \<open>[start, end]\<close> and are shorter than it.
\<close>

definition halves_shorter :: "int \<Rightarrow> int \<Rightarrow> bool" where
  "halves_shorter start end \<longleftrightarrow>
     start \<le> mid_point start end \<and> mid_point start end < end \<and>
     start < plus_one (mid_point start end) \<and> plus_one (mid_point start end) \<le> end"

section \<open>The recursive search\<close>

text \<open>
  \<open>findIntervals\<close> (lines 161-180), run by generation \<open>g\<close> from a call or a resumption
  up to its next suspension. \<open>findIntervals\<close> is the entry at the call,
  \<open>findIntervals_gotStart\<close> the entry after \<open>await getColor(start)\<close>,
  \<open>findIntervals_gotEnd\<close> the entry after \<open>await getColor(end)\<close>. An \<open>await\<close> on a
  cache hit does not leave the turn, so the function runs on. The result is the state
  the invocation is left in, and the state of the hook.

  Sibling invocations that are ready in the same turn are run one after the other,
  the first member of \<open>Promise.all\<close> first. In the browser their continuations
  alternate. Within a turn the cache and the flags do not change, so the two orders
  lead to the same tasks, the same requests and the same names in \<open>seen\<close>; they can
  differ only in the order in which the entries of \<open>colors\<close> and \<open>fetched\<close> of one turn
  are added.

  The recursion of the program has no other bound than the intervals getting shorter.
  Where a half is not shorter than the interval, it is the interval itself
  (\<open>forever_same_interval\<close> below, for hues, which are not negative; rounding
  brings this about from \<open>2 ^ 53\<close> on): the invocation for it finds both samples in
  the cache, the same two names, and splits in the same way, without ever leaving the
  turn. The invocation is then \<open>Forever\<close>. The turn it runs in does not end, so no
  state of the hook follows it, and the state in the result is of no account.
\<close>

function findIntervals :: "nat \<Rightarrow> int \<Rightarrow> int \<Rightarrow> app \<Rightarrow> task \<times> app"
  and findIntervals_gotStart :: "nat \<Rightarrow> int \<Rightarrow> int \<Rightarrow> color \<Rightarrow> app \<Rightarrow> task \<times> app"
  and findIntervals_gotEnd ::
    "nat \<Rightarrow> int \<Rightarrow> int \<Rightarrow> color \<Rightarrow> color \<Rightarrow> app \<Rightarrow> task \<times> app"
where
  "findIntervals g start end st =
     (case getColor_call g start st of
        (None, st1) \<Rightarrow> (AwaitStart start end, st1)
      | (Some colorStart, st1) \<Rightarrow> findIntervals_gotStart g start end colorStart st1)"
| "findIntervals_gotStart g start end colorStart st =
     (case getColor_call g end st of
        (None, st1) \<Rightarrow> (AwaitEnd start end colorStart, st1)
      | (Some colorEnd, st1) \<Rightarrow> findIntervals_gotEnd g start end colorStart colorEnd st1)"
| "findIntervals_gotEnd g start end colorStart colorEnd st =
     (if cancelled st g then (Done, st)
      else if name_value colorStart = name_value colorEnd then
        (Done, addColorIfUnique g colorStart st)
      else if js_round (end - start) \<le> 1 then
        (Done, addColorIfUnique g colorEnd (addColorIfUnique g colorStart st))
      else if halves_shorter start end then
        (case findIntervals g start (mid_point start end) st of
           (l, st1) \<Rightarrow>
             (case findIntervals g (plus_one (mid_point start end)) end st1 of
                (r, st2) \<Rightarrow> (Join l r, st2)))
      else (Forever, st))"
  by pat_completeness auto
termination
  apply (relation "measure (\<lambda>x. case x of
            Inl (g, start, end, st) \<Rightarrow> 3 * nat (end - start) + 2
          | Inr (Inl (g, start, end, c, st)) \<Rightarrow> 3 * nat (end - start) + 1
          | Inr (Inr (g, start, end, c, d, st)) \<Rightarrow> 3 * nat (end - start))")
   apply (auto simp: halves_shorter_def)
  done

declare findIntervals.simps [simp del]
declare findIntervals_gotStart.simps [simp del]
declare findIntervals_gotEnd.simps [simp del]

text \<open>The depth of the tree of invocations a task stands for.\<close>

fun depth :: "task \<Rightarrow> nat" where
  "depth (Join l r) = Suc (max (depth l) (depth r))"
| "depth t = 0"

text \<open>
  A bound on the number of fetches a task and the invocations it will still start
  can wait for: an interval of length \<open>n\<close> costs two fetches of its own, and its two
  halves have lengths that add up to \<open>n - 1\<close> where \<open>mid + 1\<close> is exact.
\<close>

fun work :: "task \<Rightarrow> nat" where
  "work (AwaitStart start end) = 4 * nat (end - start) + 2"
| "work (AwaitEnd start end colorStart) = 4 * nat (end - start) + 1"
| "work (Join l r) = work l + work r"
| "work Done = 0"
| "work Failed = 0"
| "work Forever = 0"

text \<open>
  The integers up to \<open>2 ^ 52\<close> in magnitude: the sum of two of them, and the successor
  of one, is a double, so that the search computes with them exactly.
\<close>

definition small :: "int \<Rightarrow> bool" where
  "small n \<longleftrightarrow> \<bar>n\<bar> \<le> 2 ^ 52"

text \<open>
  Every invocation of the task works on points of \<open>[lo, hi]\<close>, and none is \<open>Forever\<close>.
\<close>

fun confined :: "int \<Rightarrow> int \<Rightarrow> task \<Rightarrow> bool" where
  "confined lo hi (AwaitStart start end) =
     (lo \<le> start \<and> start \<le> hi \<and> lo \<le> end \<and> end \<le> hi)"
| "confined lo hi (AwaitEnd start end colorStart) =
     (lo \<le> start \<and> start \<le> hi \<and> lo \<le> end \<and> end \<le> hi)"
| "confined lo hi (Join l r) = (confined lo hi l \<and> confined lo hi r)"
| "confined lo hi Done = True"
| "confined lo hi Failed = True"
| "confined lo hi Forever = False"

section \<open>Turns of the event loop\<close>

text \<open>
  A pending fetch is named by the invocation that awaits it, and the invocation by
  its position under the root: \<open>First\<close> and \<open>Second\<close> are the two members of a
  \<open>Promise.all\<close>.
\<close>

datatype dir = First | Second

text \<open>
  The fetch awaited at position \<open>p\<close> fulfils with \<open>data\<close>: \<open>getColor\<close> stores it and
  returns it, and the invocation runs on. \<open>None\<close>: no fetch is pending there.
\<close>

fun resolve :: "nat \<Rightarrow> dir list \<Rightarrow> color \<Rightarrow> task \<Rightarrow> app \<Rightarrow> (task \<times> app) option" where
  "resolve g [] data (AwaitStart start end) st =
     Some (findIntervals_gotStart g start end data (getColor_resume start data st))"
| "resolve g [] data (AwaitEnd start end colorStart) st =
     Some (findIntervals_gotEnd g start end colorStart data (getColor_resume end data st))"
| "resolve g (First # p) data (Join l r) st =
     (case resolve g p data l st of
        None \<Rightarrow> None
      | Some (l', st') \<Rightarrow> Some (Join l' r, st'))"
| "resolve g (Second # p) data (Join l r) st =
     (case resolve g p data r st of
        None \<Rightarrow> None
      | Some (r', st') \<Rightarrow> Some (Join l r', st'))"
| "resolve g p data t st = None"

text \<open>
  The fetch awaited at position \<open>p\<close> rejects (network error, or abort): the
  exception leaves \<open>getColor\<close> before \<open>cacheRef.current.set\<close> and leaves
  \<open>findIntervals\<close>.
\<close>

fun reject :: "dir list \<Rightarrow> task \<Rightarrow> task option" where
  "reject [] (AwaitStart start end) = Some Failed"
| "reject [] (AwaitEnd start end colorStart) = Some Failed"
| "reject (First # p) (Join l r) =
     (case reject p l of None \<Rightarrow> None | Some l' \<Rightarrow> Some (Join l' r))"
| "reject (Second # p) (Join l r) =
     (case reject p r of None \<Rightarrow> None | Some r' \<Rightarrow> Some (Join l r'))"
| "reject p t = None"

text \<open>The invocation at a position, if there is one.\<close>

fun subtask :: "dir list \<Rightarrow> task \<Rightarrow> task option" where
  "subtask [] t = Some t"
| "subtask (First # p) (Join l r) = subtask p l"
| "subtask (Second # p) (Join l r) = subtask p r"
| "subtask p t = None"

text \<open>The cleanup function the effect returns (lines 197-200), for run \<open>g\<close>.\<close>

definition cleanup :: "nat \<Rightarrow> app \<Rightarrow> app" where
  "cleanup g st = st\<lparr>cancelled := (cancelled st)(g := True)\<rparr>"

text \<open>
  The body of the effect (lines 134-194) for a new pair of debounced values. React
  runs the cleanup of the previous run first. The two root searches run up to their
  first suspension, then the anonymous function suspends on their \<open>Promise.all\<close>.
\<close>

definition effect :: "int \<Rightarrow> int \<Rightarrow> app \<Rightarrow> app" where
  "effect debouncedSaturation debouncedLightness st0 =
     (let st = (if runs st0 = 0 then st0 else cleanup (runs st0 - 1) st0);
          g = runs st;
          st1 = st\<lparr>colors := [], loading := True, cache := Map.empty, runs := g + 1,
                   deps := (deps st)(g := (debouncedSaturation, debouncedLightness)),
                   cancelled := (cancelled st)(g := False),
                   seen := (seen st)(g := {}),
                   fetched := (fetched st)(g := [])\<rparr>;
          mid = 359 div 2
      in case findIntervals g 0 mid st1 of
           (l, st2) \<Rightarrow>
             (case findIntervals g (mid + 1) 359 st2 of
                (r, st3) \<Rightarrow> st3\<lparr>root := (root st3)(g := Join l r)\<rparr>))"

text \<open>
  The continuation of the anonymous function (lines 191-193): it runs when the
  \<open>Promise.all\<close> of the roots has fulfilled, and not at all when it has rejected.
\<close>

definition settle :: "nat \<Rightarrow> app \<Rightarrow> app" where
  "settle g st =
     (if status (root st g) = Fulfilled \<and> \<not> cancelled st g then st\<lparr>loading := False\<rparr>
      else st)"

text \<open>
  What can happen to the hook: the effect runs for new debounced values, or a fetch
  of run \<open>g\<close> fulfils or rejects. Each is one turn. The sampler is the remote colour
  API: the model fixes neither what it answers nor when, and a fetch that is pending
  when its run is cleaned up may still fulfil (\<open>abort\<close> cannot recall an answer that has
  arrived). In the browser nothing follows a turn that leaves an invocation
  \<open>Forever\<close>; the model does not stop there, which adds runs and takes none away. In
  the runs of the hook no invocation is ever \<open>Forever\<close> (\<open>confined_run\<close> below).
\<close>

datatype event =
    Effect int int
  | Resolve nat "dir list" color
  | Reject nat "dir list"

fun step :: "event \<Rightarrow> app \<Rightarrow> app option" where
  "step (Effect s l) st = Some (effect s l st)"
| "step (Resolve g p data) st =
     (if g < runs st then
        (case resolve g p data (root st g) st of
           None \<Rightarrow> None
         | Some (t, st') \<Rightarrow> Some (settle g (st'\<lparr>root := (root st')(g := t)\<rparr>)))
      else None)"
| "step (Reject g p) st =
     (if g < runs st then
        (case reject p (root st g) of
           None \<Rightarrow> None
         | Some t \<Rightarrow> Some (st\<lparr>root := (root st)(g := t)\<rparr>))
      else None)"

fun run :: "event list \<Rightarrow> app \<Rightarrow> app option" where
  "run [] st = Some st"
| "run (ev # evs) st = (case step ev st of None \<Rightarrow> None | Some st' \<Rightarrow> run evs st')"

text \<open>The hook before its first effect: \<open>useState([])\<close>, \<open>useState(false)\<close>, \<open>new Map()\<close>.\<close>

definition app0 :: app where
  "app0 = \<lparr>colors = [], loading = False, cache = Map.empty, runs = 0,
           deps = (\<lambda>g. (0, 0)), cancelled = (\<lambda>g. False), seen = (\<lambda>g. {}),
           fetched = (\<lambda>g. []), root = (\<lambda>g. Done)\<rparr>"

text \<open>
  \<open>colorsSorted\<close> (lines 204-206): \<open>Object.values(colors)\<close> copies the array and
  \<open>sort\<close> with the comparator \<open>a.hsl.h - b.hsl.h\<close> orders the copy by \<open>hsl.h\<close>,
  keeping equal keys in their order (the sort is stable).
\<close>

definition colorsSorted :: "app \<Rightarrow> color list" where
  "colorsSorted st = sort_key hsl_h (colors st)"

text \<open>
  Two states that differ at most in \<open>colors\<close> and in the \<open>seen\<close> and \<open>fetched\<close> of
  run \<open>g\<close>.
\<close>

definition same_frame :: "nat \<Rightarrow> app \<Rightarrow> app \<Rightarrow> bool" where
  "same_frame g st st' \<longleftrightarrow>
     loading st' = loading st \<and> cache st' = cache st \<and> runs st' = runs st \<and>
     deps st' = deps st \<and> cancelled st' = cancelled st \<and> root st' = root st \<and>
     (\<forall>g'. g' \<noteq> g \<longrightarrow> seen st' g' = seen st g' \<and> fetched st' g' = fetched st g')"

text \<open>
  What holds of the hook whatever has happened: every run but the last is cancelled,
  the last is not, and \<open>loading\<close> is set unless the last run's root has fulfilled.
\<close>

definition wf :: "app \<Rightarrow> bool" where
  "wf st \<longleftrightarrow>
     (\<forall>g. Suc g < runs st \<longrightarrow> cancelled st g) \<and>
     (0 < runs st \<longrightarrow> \<not> cancelled st (runs st - 1)) \<and>
     (0 < runs st \<longrightarrow> loading st \<or> status (root st (runs st - 1)) = Fulfilled)"

text \<open>
  No two entries of \<open>colors\<close> have one name, and run \<open>g\<close> has seen the names of all of
  them.
\<close>

definition unique_names :: "nat \<Rightarrow> app \<Rightarrow> bool" where
  "unique_names g st \<longleftrightarrow>
     set (map name_value (colors st)) \<subseteq> seen st g \<and> distinct (map name_value (colors st))"

text \<open>An event that is not a new run of the effect.\<close>

fun no_effect :: "event \<Rightarrow> bool" where
  "no_effect (Effect s l) = False"
| "no_effect ev = True"

text \<open>The sampler answers with the identity \<open>X\<close>, whatever the point.\<close>

fun uniform :: "string \<Rightarrow> event \<Rightarrow> bool" where
  "uniform X (Resolve g p data) = (name_value data = X)"
| "uniform X ev = True"

text \<open>
  The states a root search over \<open>[start, end]\<close> can be in when every answer of the
  sampler has the name \<open>X\<close>: it never splits.
\<close>

fun root_shape :: "string \<Rightarrow> int \<Rightarrow> int \<Rightarrow> task \<Rightarrow> bool" where
  "root_shape X start end (AwaitStart s e) = (s = start \<and> e = end)"
| "root_shape X start end (AwaitEnd s e c) = (s = start \<and> e = end \<and> name_value c = X)"
| "root_shape X start end (Join l r) = False"
| "root_shape X start end Done = True"
| "root_shape X start end Failed = True"
| "root_shape X start end Forever = False"

text \<open>
  What holds of run \<open>g\<close> under such a sampler: both roots are in such a state, the
  run has asked for each of the four end points at most once and for nothing else,
  and as long as it is not cancelled \<open>colors\<close> is empty or holds one colour named \<open>X\<close>,
  the latter as soon as one root is done.
\<close>

definition gen_inv :: "string \<Rightarrow> app \<Rightarrow> nat \<Rightarrow> bool" where
  "gen_inv X st g \<longleftrightarrow>
     (\<exists>l r. root st g = Join l r \<and> root_shape X 0 179 l \<and> root_shape X 180 359 r \<and>
        (l = AwaitStart 0 179 \<longrightarrow> 179 \<notin> set (fetched st g)) \<and>
        (r = AwaitStart 180 359 \<longrightarrow> 359 \<notin> set (fetched st g)) \<and>
        ((l = Done \<or> r = Done) \<and> \<not> cancelled st g \<longrightarrow> map name_value (colors st) = [X])) \<and>
     distinct (fetched st g) \<and> set (fetched st g) \<subseteq> {0, 179, 180, 359} \<and>
     (\<not> cancelled st g \<longrightarrow>
        (colors st = [] \<and> seen st g = {}) \<or>
        (map name_value (colors st) = [X] \<and> seen st g = {X}))"

definition uniform_inv :: "string \<Rightarrow> app \<Rightarrow> bool" where
  "uniform_inv X st \<longleftrightarrow>
     wf st \<and> (\<forall>h c. cache st h = Some c \<longrightarrow> name_value c = X) \<and>
     (\<forall>g. g < runs st \<longrightarrow> gen_inv X st g)"

text \<open>Two positions neither of which lies under the other.\<close>

fun apart :: "dir list \<Rightarrow> dir list \<Rightarrow> bool" where
  "apart (a # p) (b # q) = (a \<noteq> b \<or> apart p q)"
| "apart p q = False"

text \<open>A colour with a given name and hue, for the examples.\<close>

definition sample :: "string \<Rightarrow> int \<Rightarrow> color" where
  "sample n h = \<lparr>name_value = n, hsl_h = h, hex_value = ''#''\<rparr>"

section \<open>Debouncing\<close>

text \<open>
  One instance of \<open>useDebounce\<close> (lines 56-69): its state \<open>debouncedValue\<close> and the
  timeout its effect has pending, as the time it fires at and the value its callback
  has captured. Time is counted in milliseconds.
\<close>

record debounce =
  debouncedValue :: int
  handler :: "(nat \<times> int) option"

text \<open>
  The effect of \<open>useDebounce\<close> when \<open>value\<close> has changed: the cleanup of the previous
  run clears its timeout, then a new one is set.
\<close>

definition useDebounce_effect :: "nat \<Rightarrow> int \<Rightarrow> nat \<Rightarrow> debounce \<Rightarrow> debounce" where
  "useDebounce_effect now v delay d = d\<lparr>handler := Some (now + delay, v)\<rparr>"

text \<open>The callback of the timeout: \<open>setDebouncedValue(value)\<close>.\<close>

definition useDebounce_timeout :: "int \<Rightarrow> debounce \<Rightarrow> debounce" where
  "useDebounce_timeout v d = d\<lparr>debouncedValue := v, handler := None\<rparr>"

text \<open>
  \<open>App\<close> with \<open>useColorsDivideAndConquer\<close>: the two inputs, one \<open>useDebounce\<close> for
  each (both with delay 200), and the state of the hook.
\<close>

record hook =
  saturation :: int
  lightness :: int
  saturationDebounce :: debounce
  lightnessDebounce :: debounce
  app_state :: app

definition debouncedSaturation :: "hook \<Rightarrow> int" where
  "debouncedSaturation h = debouncedValue (saturationDebounce h)"

definition debouncedLightness :: "hook \<Rightarrow> int" where
  "debouncedLightness h = debouncedValue (lightnessDebounce h)"

text \<open>
  \<open>setSaturation(v)\<close> and \<open>setLightness(v)\<close> at time \<open>now\<close>. Setting a state to the
  value it has does not render again, and an effect runs again only when a dependency
  has changed.
\<close>

definition setSaturation :: "nat \<Rightarrow> int \<Rightarrow> hook \<Rightarrow> hook" where
  "setSaturation now v h =
     (if v = saturation h then h
      else h\<lparr>saturation := v,
             saturationDebounce := useDebounce_effect now v 200 (saturationDebounce h)\<rparr>)"

definition setLightness :: "nat \<Rightarrow> int \<Rightarrow> hook \<Rightarrow> hook" where
  "setLightness now v h =
     (if v = lightness h then h
      else h\<lparr>lightness := v,
             lightnessDebounce := useDebounce_effect now v 200 (lightnessDebounce h)\<rparr>)"

text \<open>
  A timeout fires. When the debounced value changes, the effect of
  \<open>useColorsDivideAndConquer\<close> runs again, for the two debounced values of that
  moment: a new generation.
\<close>

definition fireSaturation :: "hook \<Rightarrow> hook" where
  "fireSaturation h =
     (case handler (saturationDebounce h) of
        None \<Rightarrow> h
      | Some (t, v) \<Rightarrow>
          (let h' = h\<lparr>saturationDebounce := useDebounce_timeout v (saturationDebounce h)\<rparr>
           in if v = debouncedSaturation h then h'
              else h'\<lparr>app_state := effect v (debouncedLightness h') (app_state h')\<rparr>))"

definition fireLightness :: "hook \<Rightarrow> hook" where
  "fireLightness h =
     (case handler (lightnessDebounce h) of
        None \<Rightarrow> h
      | Some (t, v) \<Rightarrow>
          (let h' = h\<lparr>lightnessDebounce := useDebounce_timeout v (lightnessDebounce h)\<rparr>
           in if v = debouncedLightness h then h'
              else h'\<lparr>app_state := effect (debouncedSaturation h') v (app_state h')\<rparr>))"

text \<open>Is the timeout due at time \<open>now\<close>, and when.\<close>

definition due :: "nat \<Rightarrow> debounce \<Rightarrow> nat option" where
  "due now d =
     (case handler d of
        None \<Rightarrow> None
      | Some (t, v) \<Rightarrow> if t \<le> now then Some t else None)"

text \<open>
  Time passes up to \<open>now\<close>: the timeouts that are due fire, the earlier first, each
  as a turn of its own. A timeout sets no timeout, so one pass is enough.
\<close>

definition advance :: "nat \<Rightarrow> hook \<Rightarrow> hook" where
  "advance now h =
     (case (due now (saturationDebounce h), due now (lightnessDebounce h)) of
        (None, None) \<Rightarrow> h
      | (Some ta, None) \<Rightarrow> fireSaturation h
      | (None, Some tb) \<Rightarrow> fireLightness h
      | (Some ta, Some tb) \<Rightarrow>
          if ta \<le> tb then fireLightness (fireSaturation h)
          else fireSaturation (fireLightness h))"

datatype input = SetSaturation int | SetLightness int

fun handle_input :: "nat \<Rightarrow> input \<Rightarrow> hook \<Rightarrow> hook" where
  "handle_input now (SetSaturation v) h = setSaturation now v h"
| "handle_input now (SetLightness v) h = setLightness now v h"

text \<open>Inputs with the times they arrive at, in order of time.\<close>

fun run_inputs :: "(nat \<times> input) list \<Rightarrow> hook \<Rightarrow> hook" where
  "run_inputs [] h = h"
| "run_inputs ((now, i) # evs) h = run_inputs evs (handle_input now i (advance now h))"

text \<open>No more input arrives: the pending timeouts fire.\<close>

definition quiesce :: "hook \<Rightarrow> hook" where
  "quiesce h =
     (case (handler (saturationDebounce h), handler (lightnessDebounce h)) of
        (Some (ta, va), Some (tb, vb)) \<Rightarrow> advance (max ta tb) h
      | (Some (ta, va), None) \<Rightarrow> advance ta h
      | (None, Some (tb, vb)) \<Rightarrow> advance tb h
      | (None, None) \<Rightarrow> h)"

text \<open>
  The component mounts at time 0 with \<open>useState(50)\<close> for both inputs: each
  \<open>useDebounce\<close> starts from the value it is given and sets its first timeout, and the
  effect of \<open>useColorsDivideAndConquer\<close> runs for the first time.
\<close>

definition mount :: hook where
  "mount = \<lparr>saturation = 50, lightness = 50,
            saturationDebounce = \<lparr>debouncedValue = 50, handler = Some (200, 50)\<rparr>,
            lightnessDebounce = \<lparr>debouncedValue = 50, handler = Some (200, 50)\<rparr>,
            app_state = effect 50 50 app0\<rparr>"

text \<open>
  A burst of changes of one input: every value differs from the one before (from
  \<open>v0\<close> for the first), and every change comes after the one before and less than
  \<open>delay\<close> later.
\<close>

fun changing :: "int \<Rightarrow> (nat \<times> int) list \<Rightarrow> bool" where
  "changing v0 [] = True"
| "changing v0 ((t, v) # tvs) = (v \<noteq> v0 \<and> changing v tvs)"

fun spaced :: "nat \<Rightarrow> (nat \<times> int) list \<Rightarrow> bool" where
  "spaced delay [] = True"
| "spaced delay [tv] = True"
| "spaced delay ((t, v) # (t', v') # tvs) =
     (t < t' \<and> t' < t + delay \<and> spaced delay ((t', v') # tvs))"

text \<open>A burst of changes of the saturation, or of the lightness, as inputs.\<close>

fun saturation_burst :: "(nat \<times> int) list \<Rightarrow> (nat \<times> input) list" where
  "saturation_burst [] = []"
| "saturation_burst ((t, v) # tvs) = (t, SetSaturation v) # saturation_burst tvs"

fun lightness_burst :: "(nat \<times> int) list \<Rightarrow> (nat \<times> input) list" where
  "lightness_burst [] = []"
| "lightness_burst ((t, v) # tvs) = (t, SetLightness v) # lightness_burst tvs"

text \<open>Nothing is pending: no timeout is set and both debounced values are the inputs.\<close>

definition idle :: "hook \<Rightarrow> bool" where
  "idle h \<longleftrightarrow>
     handler (saturationDebounce h) = None \<and> handler (lightnessDebounce h) = None \<and>
     debouncedSaturation h = saturation h \<and> debouncedLightness h = lightness h"

section \<open>Arithmetic of JavaScript numbers\<close>

lemma ulp_small: "m < 2 ^ 53 \<Longrightarrow> ulp m = 1"
  by (simp add: ulp.simps[of m])

lemma ulp_large: "\<not> m < 2 ^ 53 \<Longrightarrow> ulp m = 2 * ulp (m div 2)"
  by (simp add: ulp.simps[of m])

lemma ulp_pos [simp]: "0 < ulp m"
  by (induction m rule: ulp.induct) (simp add: ulp.simps)

lemma ulp_pow2: "\<exists>k. ulp m = 2 ^ k"
proof (induction m rule: ulp.induct)
  case (1 m)
  show ?case
  proof (cases "m < 2 ^ 53")
    case True
    then have "ulp m = 2 ^ 0" by (simp add: ulp_small)
    then show ?thesis by blast
  next
    case False
    then obtain k where "ulp (m div 2) = 2 ^ k" using 1 by blast
    then have "ulp m = 2 ^ Suc k" using False by (simp add: ulp_large)
    then show ?thesis by blast
  qed
qed

lemma ulp_upper: "m < 2 ^ 53 * ulp m"
proof (induction m rule: ulp.induct)
  case (1 m)
  show ?case
  proof (cases "m < 2 ^ 53")
    case True
    then show ?thesis by (simp add: ulp_small)
  next
    case False
    then have "m div 2 < 2 ^ 53 * ulp (m div 2)" using 1 by simp
    then show ?thesis using False by (simp add: ulp_large)
  qed
qed

lemma ulp_lower: "\<not> m < 2 ^ 53 \<Longrightarrow> 2 ^ 52 * ulp m \<le> m"
proof (induction m rule: ulp.induct)
  case (1 m)
  show ?case
  proof (cases "m div 2 < 2 ^ 53")
    case True
    then have "ulp m = 2" using "1.prems" by (simp add: ulp_large ulp_small)
    then show ?thesis using "1.prems" by simp
  next
    case False
    then have "2 ^ 52 * ulp (m div 2) \<le> m div 2" using 1 by simp
    then show ?thesis using "1.prems" by (simp add: ulp_large)
  qed
qed

lemma ulp_mono: "m \<le> n \<Longrightarrow> ulp m dvd ulp n"
proof (induction n arbitrary: m rule: ulp.induct)
  case (1 n)
  show ?case
  proof (cases "m < 2 ^ 53")
    case True
    then show ?thesis by (simp add: ulp_small)
  next
    case False
    then have n: "\<not> n < 2 ^ 53" using "1.prems" by simp
    have "m div 2 \<le> n div 2" using "1.prems" by (rule div_le_mono)
    then have "ulp (m div 2) dvd ulp (n div 2)" using 1 n by simp
    then show ?thesis using False n by (simp add: ulp_large)
  qed
qed

lemma ulp_below: "m < 2 ^ 53 * 2 ^ k \<Longrightarrow> ulp m dvd 2 ^ k"
proof (induction m arbitrary: k rule: ulp.induct)
  case (1 m)
  show ?case
  proof (cases "m < 2 ^ 53")
    case True
    then show ?thesis by (simp add: ulp_small)
  next
    case False
    then have "k \<noteq> 0" using "1.prems" by (cases k) auto
    then obtain j where k: "k = Suc j" by (cases k) auto
    have "m div 2 < 2 ^ 53 * 2 ^ j" using "1.prems" k by simp
    then have "ulp (m div 2) dvd 2 ^ j" using 1 False by simp
    then show ?thesis using False k by (simp add: ulp_large)
  qed
qed


lemma nearest_cases:
  "nearest m = (m div ulp m) * ulp m \<or> nearest m = (m div ulp m + 1) * ulp m"
  by (simp add: nearest_def Let_def)

lemma nearest_exact: "ulp m dvd m \<Longrightarrow> nearest m = m"
  by (simp add: nearest_def Let_def)

lemma nearest_inexact: "nearest m \<noteq> m \<Longrightarrow> \<not> ulp m dvd m"
  using nearest_exact by blast

lemma nearest_small: "m < 2 ^ 53 \<Longrightarrow> nearest m = m"
  by (simp add: nearest_exact ulp_small)

lemma nearest_fixed: "nearest m = m \<Longrightarrow> ulp m dvd m"
  using nearest_cases [of m] by (metis dvd_triv_right)

lemma nearest_ge: "(m div ulp m) * ulp m \<le> nearest m"
  using nearest_cases [of m] by auto

lemma nearest_le: "nearest m \<le> (m div ulp m + 1) * ulp m"
  using nearest_cases [of m] by auto

lemma nearest_lower:
  assumes x: "ulp x dvd x" and le: "x \<le> m"
  shows "x \<le> nearest m"
proof (cases "m < 2 ^ 53")
  case True
  then show ?thesis using le by (simp add: nearest_small)
next
  case False
  let ?u = "ulp m"
  have low: "2 ^ 52 * ?u \<le> m" using False by (rule ulp_lower)
  have q: "2 ^ 52 \<le> m div ?u"
  proof -
    have "(2 ^ 52 * ?u) div ?u \<le> m div ?u" using low by (rule div_le_mono)
    then show ?thesis by simp
  qed
  show ?thesis
  proof (cases "x \<le> 2 ^ 52 * ?u")
    case True
    have "2 ^ 52 * ?u \<le> (m div ?u) * ?u" using q by simp
    then show ?thesis using True nearest_ge [of m] by linarith
  next
    case big: False
    have d: "ulp x dvd ?u" using le by (rule ulp_mono)
    have "ulp x = ?u"
    proof (rule ccontr)
      assume ne: "ulp x \<noteq> ?u"
      obtain k where k: "?u = ulp x * k" using d by (auto simp: dvd_def)
      have "k \<noteq> 0" using k ulp_pos [of m] by (cases k) auto
      moreover have "k \<noteq> 1" using k ne by auto
      ultimately have "2 \<le> k" by simp
      then have "2 * ulp x \<le> ?u" using k by simp
      moreover have "x < 2 ^ 53 * ulp x" by (rule ulp_upper)
      ultimately have "x < 2 ^ 52 * ?u" by simp
      then show False using big by simp
    qed
    then have "?u dvd x" using x by simp
    then obtain j where j: "x = ?u * j" by (auto simp: dvd_def)
    have "j \<le> m div ?u"
    proof -
      have "(?u * j) div ?u \<le> m div ?u" using le j by (intro div_le_mono) simp
      then show ?thesis by simp
    qed
    then have "x \<le> (m div ?u) * ?u" using j by simp
    then show ?thesis using nearest_ge [of m] by linarith
  qed
qed

lemma nearest_upper:
  assumes x: "ulp x dvd x" and le: "m \<le> x"
  shows "nearest m \<le> x"
proof (cases "ulp m dvd m")
  case True
  then show ?thesis using le by (simp add: nearest_exact)
next
  case False
  let ?u = "ulp m"
  have "?u dvd ulp x" using le by (rule ulp_mono)
  then have "?u dvd x" using x by (rule dvd_trans)
  then obtain j where j: "x = ?u * j" by (auto simp: dvd_def)
  have "m \<noteq> x" using False \<open>?u dvd x\<close> by auto
  then have lt: "m < ?u * j" using le j by simp
  have "m div ?u < j"
  proof (rule ccontr)
    assume "\<not> m div ?u < j"
    then have "j \<le> m div ?u" by simp
    then have "?u * j \<le> ?u * (m div ?u)" by simp
    also have "\<dots> \<le> m" by simp
    finally show False using lt by simp
  qed
  then have "m div ?u + 1 \<le> j" by simp
  then have "(m div ?u + 1) * ?u \<le> j * ?u" by (rule mult_le_mono1)
  then show ?thesis using nearest_le [of m] j by (simp add: mult.commute)
qed

lemma representable_below:
  assumes "x < 2 ^ 53 * 2 ^ k" and "2 ^ k dvd x"
  shows "ulp x dvd x"
  using ulp_below [OF assms(1)] assms(2) by (rule dvd_trans)

lemma nearest_representable: "ulp (nearest m) dvd nearest m"
proof -
  let ?u = "ulp m" and ?q = "m div ulp m"
  obtain k where k: "?u = 2 ^ k" using ulp_pow2 by blast
  have up: "m < 2 ^ 53 * ?u" by (rule ulp_upper)
  have q: "?q < 2 ^ 53"
  proof -
    have "m < 2 ^ 53 * ?u" by (rule ulp_upper)
    then show ?thesis by (simp add: less_mult_imp_div_less)
  qed
  consider (a) "nearest m = ?q * ?u" | (b) "nearest m = (?q + 1) * ?u"
    using nearest_cases [of m] by blast
  then show ?thesis
  proof cases
    case a
    have "nearest m < 2 ^ 53 * 2 ^ k" using a q k by simp
    moreover have "2 ^ k dvd nearest m" using a k by simp
    ultimately show ?thesis by (rule representable_below)
  next
    case b
    show ?thesis
    proof (cases "?q + 1 < 2 ^ 53")
      case True
      have "nearest m < 2 ^ 53 * 2 ^ k" using b True k by simp
      moreover have "2 ^ k dvd nearest m" using b k by simp
      ultimately show ?thesis by (rule representable_below)
    next
      case False
      then have e: "?q + 1 = 2 ^ 53" using q by simp
      have n: "nearest m = 2 ^ 53 * 2 ^ k" using b e k by simp
      have "nearest m < 2 ^ 53 * 2 ^ Suc k" using n by simp
      moreover have "2 ^ Suc k dvd nearest m" using n by simp
      ultimately show ?thesis by (rule representable_below)
    qed
  qed
qed

lemma representable_double: "ulp x dvd x \<Longrightarrow> ulp (2 * x) dvd 2 * x"
  by (cases "2 * x < 2 ^ 53") (simp_all add: ulp_small ulp_large)

lemma representable_half: "ulp x dvd x \<Longrightarrow> ulp (x div 2) dvd x div 2"
proof (cases "x < 2 ^ 53")
  case True
  then have "x div 2 < 2 ^ 53" by simp
  then show ?thesis by (simp add: ulp_small)
next
  case False
  assume "ulp x dvd x"
  then have "2 * ulp (x div 2) dvd x" using False by (simp add: ulp_large)
  then obtain j where "x = 2 * ulp (x div 2) * j" by (auto simp: dvd_def)
  then have "x div 2 = ulp (x div 2) * j" by simp
  then show ?thesis by (metis dvd_triv_left)
qed


lemma nearest_safe: "m \<le> 2 ^ 53 \<Longrightarrow> nearest m = m"
proof (cases "m < 2 ^ 53")
  case True
  then show ?thesis by (rule nearest_small)
next
  case False
  assume "m \<le> 2 ^ 53"
  then have m: "m = 2 ^ 53" using False by simp
  have "ulp m = 2" unfolding m by (simp add: ulp_large ulp_small)
  then have "ulp m dvd m" unfolding m by simp
  then show ?thesis by (rule nearest_exact)
qed

lemma js_round_safe: "\<bar>n\<bar> \<le> 2 ^ 53 \<Longrightarrow> js_round n = n"
  by (simp add: js_round_def nearest_safe nat_le_iff)

lemma js_round_nonneg: "0 \<le> n \<Longrightarrow> js_round n = int (nearest (nat n))"
  by (simp add: js_round_def)

lemma js_round_le_1 [simp]: "js_round d \<le> 1 \<longleftrightarrow> d \<le> 1"
proof (cases "d \<le> 1")
  case True
  show ?thesis
  proof (cases "d < 0")
    case True
    then show ?thesis by (simp add: js_round_def)
  next
    case False
    then have "\<bar>d\<bar> \<le> 2 ^ 53" using \<open>d \<le> 1\<close> by simp
    then show ?thesis using \<open>d \<le> 1\<close> by (simp add: js_round_safe)
  qed
next
  case False
  have "ulp 2 dvd 2" by (simp add: ulp_small)
  moreover have "2 \<le> nat d" using False by simp
  ultimately have "2 \<le> nearest (nat d)" by (rule nearest_lower)
  then show ?thesis using False by (simp add: js_round_def)
qed

lemma mid_point_safe: "\<bar>start + en\<bar> \<le> 2 ^ 53 \<Longrightarrow> mid_point start en = (start + en) div 2"
  by (simp add: mid_point_def js_round_safe)

lemma plus_one_safe: "\<bar>mid + 1\<bar> \<le> 2 ^ 53 \<Longrightarrow> plus_one mid = mid + 1"
  by (simp add: plus_one_def js_round_safe)

lemma js_number_nonneg: "0 \<le> n \<Longrightarrow> js_number n \<longleftrightarrow> ulp (nat n) dvd nat n"
proof
  assume n: "0 \<le> n" and "js_number n"
  then have "int (nearest (nat n)) = int (nat n)" by (simp add: js_number_def js_round_def)
  then have "nearest (nat n) = nat n" by (simp only: of_nat_eq_iff)
  then show "ulp (nat n) dvd nat n" by (rule nearest_fixed)
next
  assume n: "0 \<le> n" and "ulp (nat n) dvd nat n"
  then show "js_number n" by (simp add: js_number_def js_round_def nearest_exact)
qed

text \<open>
  The halves of an interval of JavaScript numbers: the point in the middle lies in
  the interval, and its successor, as computed, is not below it and not above \<open>end\<close>
  unless the point in the middle is \<open>end\<close>.
\<close>

lemma halves_of_js_numbers:
  assumes s: "js_number start" and e: "js_number en" and p: "0 \<le> start" and l: "start \<le> en"
  shows "start \<le> mid_point start en \<and> mid_point start en \<le> en \<and>
         mid_point start en \<le> plus_one (mid_point start en) \<and>
         (mid_point start en < en \<longrightarrow> plus_one (mid_point start en) \<le> en) \<and>
         js_number (mid_point start en) \<and> js_number (plus_one (mid_point start en))"
proof -
  let ?a = "nat start" and ?b = "nat en"
  let ?r = "nearest (?a + ?b)"
  have ra: "ulp ?a dvd ?a" using s p by (simp add: js_number_nonneg)
  have rb: "ulp ?b dvd ?b" using e p l by (simp add: js_number_nonneg)
  have ab: "?a \<le> ?b" using l by simp
  have m: "mid_point start en = int (?r div 2)"
    using p l by (simp add: mid_point_def js_round_nonneg nat_add_distrib zdiv_int)
  have "ulp (2 * ?a) dvd 2 * ?a" using ra by (rule representable_double)
  moreover have "2 * ?a \<le> ?a + ?b" using ab by simp
  ultimately have "2 * ?a \<le> ?r" by (rule nearest_lower)
  then have lo: "?a \<le> ?r div 2" by simp
  have "ulp (2 * ?b) dvd 2 * ?b" using rb by (rule representable_double)
  moreover have "?a + ?b \<le> 2 * ?b" using ab by simp
  ultimately have "?r \<le> 2 * ?b" by (rule nearest_upper)
  then have hi: "?r div 2 \<le> ?b" by simp
  have rm: "ulp (?r div 2) dvd ?r div 2"
    using nearest_representable by (rule representable_half)
  have n: "plus_one (mid_point start en) = int (nearest (?r div 2 + 1))"
    unfolding m by (simp add: plus_one_def js_round_nonneg nat_add_distrib)
  have up: "?r div 2 \<le> nearest (?r div 2 + 1)" using rm by (rule nearest_lower) simp
  have c1: "start \<le> mid_point start en" unfolding m using lo p by simp
  have c2: "mid_point start en \<le> en" unfolding m using hi p l by simp
  have c3: "mid_point start en \<le> plus_one (mid_point start en)"
    unfolding n unfolding m using up by simp
  have c4: "mid_point start en < en \<longrightarrow> plus_one (mid_point start en) \<le> en"
  proof
    assume "mid_point start en < en"
    then have "?r div 2 + 1 \<le> ?b" unfolding m using p l by simp
    with rb have "nearest (?r div 2 + 1) \<le> ?b" by (rule nearest_upper)
    then show "plus_one (mid_point start en) \<le> en" unfolding n using p l by simp
  qed
  have c5: "js_number (mid_point start en)" unfolding m using rm by (simp add: js_number_nonneg)
  have c6: "js_number (plus_one (mid_point start en))"
    unfolding n using nearest_representable [of "?r div 2 + 1"] by (simp add: js_number_nonneg)
  show ?thesis using c1 c2 c3 c4 c5 c6 by blast
qed

text \<open>
  So a half that is not shorter than the interval is the interval: \<open>[start, mid]\<close> with
  \<open>mid = end\<close>, or \<open>[mid + 1, end]\<close> with \<open>mid + 1\<close> computed as \<open>start\<close>.
\<close>

lemma forever_same_interval:
  assumes "js_number start" and "js_number en" and "0 \<le> start" and "start \<le> en"
      and "\<not> halves_shorter start en"
  shows "mid_point start en = en \<or> plus_one (mid_point start en) = start"
  using halves_of_js_numbers [OF assms(1-4)] assms(5)
  by (auto simp: halves_shorter_def)



lemma small_between: "small lo \<Longrightarrow> small hi \<Longrightarrow> lo \<le> n \<Longrightarrow> n \<le> hi \<Longrightarrow> small n"
  by (simp add: small_def)


text \<open>
  Up to \<open>2 ^ 53\<close> a sum is rounded by one at most and a successor is exact: both
  halves are shorter.
\<close>

lemma nearest_within_one: "m < 2 ^ 54 \<Longrightarrow> nearest m \<le> m + 1"
proof (cases "m < 2 ^ 53")
  case True
  then show ?thesis by (simp add: nearest_small)
next
  case False
  assume "m < 2 ^ 54"
  then have "m div 2 < 2 ^ 53" by simp
  then have u: "ulp m = 2" using False by (simp add: ulp_large ulp_small)
  show ?thesis
  proof (cases "even m")
    case True
    then have "ulp m dvd m" using u by simp
    then show ?thesis by (simp add: nearest_exact)
  next
    case False
    then have "(m div 2 + 1) * 2 = m + 1" by presburger
    then show ?thesis using nearest_le [of m] u by simp
  qed
qed

lemma halves_up_to_2_53:
  assumes p: "0 \<le> start" and u: "en \<le> 2 ^ 53" and b: "2 \<le> en - start"
  shows "halves_shorter start en"
    and "plus_one (mid_point start en) = mid_point start en + 1"
proof -
  have s: "js_number start" using p u b by (simp add: js_number_def js_round_safe)
  have e: "js_number en" using p u b by (simp add: js_number_def js_round_safe)
  have l: "start \<le> en" using b by simp
  note h = halves_of_js_numbers[OF s e p l]
  have "nat (start + en) < 2 ^ 54" using p u b by simp
  then have "nearest (nat (start + en)) \<le> nat (start + en) + 1" by (rule nearest_within_one)
  then have "js_round (start + en) \<le> start + en + 1" using p l by (simp add: js_round_nonneg)
  then have "js_round (start + en) \<le> 2 * en - 1" using b by simp
  then have "js_round (start + en) div 2 \<le> (2 * en - 1) div 2" by (rule zdiv_mono1) simp
  then have m: "mid_point start en < en" by (simp add: mid_point_def)
  have "\<bar>mid_point start en + 1\<bar> \<le> 2 ^ 53" using m u h p by simp
  then show n: "plus_one (mid_point start en) = mid_point start en + 1" by (rule plus_one_safe)
  show "halves_shorter start en" unfolding halves_shorter_def n using h m by simp
qed


text \<open>At \<open>2 ^ 53\<close>: the sum \<open>2 ^ 54 + 2\<close> is rounded to \<open>2 ^ 54\<close>, and \<open>2 ^ 53 + 1\<close> to \<open>2 ^ 53\<close>.\<close>

lemma nearest_2_54: "nearest 18014398509481986 = 18014398509481984"
proof -
  have "ulp 18014398509481986 = 2 * ulp 9007199254740993" by (simp add: ulp_large)
  also have "\<dots> = 2 * (2 * ulp 4503599627370496)" by (simp add: ulp_large)
  also have "\<dots> = 4" by (simp add: ulp_small)
  finally show ?thesis by (simp add: nearest_def Let_def)
qed

lemma nearest_2_53: "nearest 9007199254740993 = 9007199254740992"
proof -
  have "ulp 9007199254740993 = 2 * ulp 4503599627370496" by (simp add: ulp_large)
  also have "\<dots> = 2" by (simp add: ulp_small)
  finally show ?thesis by (simp add: nearest_def Let_def)
qed

lemma halves_2_53:
  "mid_point (2 ^ 53) (2 ^ 53 + 2) = 2 ^ 53"
  "plus_one (2 ^ 53) = 2 ^ 53"
  "js_number (2 ^ 53)"
  "js_number (2 ^ 53 + 2)"
  by (simp_all add: mid_point_def plus_one_def js_round_def nearest_2_54 nearest_2_53
      js_number_def nearest_exact ulp_large ulp_small)

lemma halves_not_shorter_2_53: "\<not> halves_shorter (2 ^ 53) (2 ^ 53 + 2)"
proof -
  have m: "mid_point (2 ^ 53) (2 ^ 53 + 2) = 2 ^ 53" by (rule halves_2_53)
  have n: "plus_one (mid_point (2 ^ 53) (2 ^ 53 + 2)) = 2 ^ 53"
    unfolding m by (rule halves_2_53)
  show ?thesis unfolding halves_shorter_def n by simp
qed

section \<open>What one turn of the search preserves\<close>

lemma getColor_call_cases:
  "getColor_call g hue st = (r, st') \<Longrightarrow>
     r = cache st hue \<and> ((\<exists>c. r = Some c \<and> st' = st) \<or> (r = None \<and> st' = fetchColor g hue st))"
  by (auto simp: getColor_call_def split: option.splits)

lemma cancelled_addColorIfUnique [simp]:
  "cancelled (addColorIfUnique g c st) = cancelled st"
  by (simp add: addColorIfUnique_def)

lemma cancelled_fetchColor [simp]:
  "cancelled (fetchColor g h st) = cancelled st"
  by (simp add: fetchColor_def)

lemmas findIntervals_induct =
  findIntervals_findIntervals_gotStart_findIntervals_gotEnd.induct

text \<open>
  A property of the state that every call of \<open>fetchColor\<close> keeps, and every
  \<open>addColorIfUnique\<close> of a run that is not cancelled, is kept by the search.
\<close>

lemma findIntervals_preserves_aux:
  "(\<forall>st h. P st \<longrightarrow> P (fetchColor g h st)) \<Longrightarrow>
   (\<forall>st c. P st \<longrightarrow> \<not> cancelled st g \<longrightarrow> P (addColorIfUnique g c st)) \<Longrightarrow>
   P st \<Longrightarrow> P (snd (findIntervals g start en st))"
  "(\<forall>st h. P st \<longrightarrow> P (fetchColor g h st)) \<Longrightarrow>
   (\<forall>st c. P st \<longrightarrow> \<not> cancelled st g \<longrightarrow> P (addColorIfUnique g c st)) \<Longrightarrow>
   P st \<Longrightarrow> P (snd (findIntervals_gotStart g start en c st))"
  "(\<forall>st h. P st \<longrightarrow> P (fetchColor g h st)) \<Longrightarrow>
   (\<forall>st c. P st \<longrightarrow> \<not> cancelled st g \<longrightarrow> P (addColorIfUnique g c st)) \<Longrightarrow>
   P st \<Longrightarrow> P (snd (findIntervals_gotEnd g start en c d st))"
proof (induction g start en st and g start en c st and g start en c d st
    rule: findIntervals_induct)
  case (1 g start en st)
  show ?case
  proof (cases "getColor_call g start st")
    case (Pair r st1)
    from getColor_call_cases[OF Pair] show ?thesis
      using 1 Pair by (auto simp: findIntervals.simps[of g start en st])
  qed
next
  case (2 g start en colorStart st)
  show ?case
  proof (cases "getColor_call g en st")
    case (Pair r st1)
    from getColor_call_cases[OF Pair] show ?thesis
      using 2 Pair by (auto simp: findIntervals_gotStart.simps[of g start en colorStart st])
  qed
next
  case (3 g start en colorStart colorEnd st)
  let ?mid = "mid_point start en"
  let ?next = "plus_one (mid_point start en)"
  show ?case
  proof (cases "cancelled st g \<or> name_value colorStart = name_value colorEnd \<or>
      en - start \<le> 1 \<or> \<not> halves_shorter start en")
    case True
    then show ?thesis using "3.prems"
      by (auto simp: findIntervals_gotEnd.simps[of g start en colorStart colorEnd st])
  next
    case False
    obtain l st1 where l: "findIntervals g start ?mid st = (l, st1)"
      by (cases "findIntervals g start ?mid st")
    obtain r st2 where r: "findIntervals g ?next en st1 = (r, st2)"
      by (cases "findIntervals g ?next en st1")
    have "P st1" using "3.IH"(1)[OF _ _ _ _ "3.prems"] False l by simp
    then have "P st2" using "3.IH"(2)[OF _ _ _ _ l[symmetric] "3.prems"(1,2)] False r by simp
    then show ?thesis using False l r
      by (simp add: findIntervals_gotEnd.simps[of g start en colorStart colorEnd st])
  qed
qed

lemma findIntervals_preserves:
  assumes "\<And>st h. P st \<Longrightarrow> P (fetchColor g h st)"
      and "\<And>st c. P st \<Longrightarrow> \<not> cancelled st g \<Longrightarrow> P (addColorIfUnique g c st)"
      and "P st"
  shows "P (snd (findIntervals g start en st))"
    and "P (snd (findIntervals_gotStart g start en c st))"
    and "P (snd (findIntervals_gotEnd g start en c d st))"
proof -
  have f: "\<forall>st h. P st \<longrightarrow> P (fetchColor g h st)" using assms(1) by simp
  have a: "\<forall>st c. P st \<longrightarrow> \<not> cancelled st g \<longrightarrow> P (addColorIfUnique g c st)"
    using assms(2) by simp
  show "P (snd (findIntervals g start en st))"
    by (rule findIntervals_preserves_aux(1)[OF f a assms(3)])
  show "P (snd (findIntervals_gotStart g start en c st))"
    by (rule findIntervals_preserves_aux(2)[OF f a assms(3)])
  show "P (snd (findIntervals_gotEnd g start en c d st))"
    by (rule findIntervals_preserves_aux(3)[OF f a assms(3)])
qed

text \<open>The search writes neither the cache nor the flags nor another run's variables.\<close>

lemma findIntervals_frame:
  "same_frame g st (snd (findIntervals g start en st))"
  "same_frame g st (snd (findIntervals_gotStart g start en c st))"
  "same_frame g st (snd (findIntervals_gotEnd g start en c d st))"
proof -
  have f: "\<And>s h. same_frame g st s \<Longrightarrow> same_frame g st (fetchColor g h s)"
    by (simp add: same_frame_def fetchColor_def)
  have a: "\<And>s c. same_frame g st s \<Longrightarrow> \<not> cancelled s g \<Longrightarrow>
             same_frame g st (addColorIfUnique g c s)"
    by (simp add: same_frame_def addColorIfUnique_def)
  have p: "same_frame g st st" by (simp add: same_frame_def)
  show "same_frame g st (snd (findIntervals g start en st))"
    by (rule findIntervals_preserves(1)[where P = "same_frame g st", OF f a p])
  show "same_frame g st (snd (findIntervals_gotStart g start en c st))"
    by (rule findIntervals_preserves(2)[where P = "same_frame g st", OF f a p])
  show "same_frame g st (snd (findIntervals_gotEnd g start en c d st))"
    by (rule findIntervals_preserves(3)[where P = "same_frame g st", OF f a p])
qed

text \<open>A cancelled run adds no colour.\<close>

lemma findIntervals_cancelled_colors:
  assumes "cancelled st g"
  shows "colors (snd (findIntervals g start en st)) = colors st \<and>
         seen (snd (findIntervals g start en st)) = seen st"
    and "colors (snd (findIntervals_gotStart g start en c st)) = colors st \<and>
         seen (snd (findIntervals_gotStart g start en c st)) = seen st"
    and "colors (snd (findIntervals_gotEnd g start en c d st)) = colors st \<and>
         seen (snd (findIntervals_gotEnd g start en c d st)) = seen st"
proof -
  let ?P = "\<lambda>s. cancelled s g \<and> colors s = colors st \<and> seen s = seen st"
  have "?P (snd (findIntervals g start en st))"
    by (rule findIntervals_preserves(1)[where P = ?P])
       (use assms in \<open>simp_all add: fetchColor_def\<close>)
  then show "colors (snd (findIntervals g start en st)) = colors st \<and>
         seen (snd (findIntervals g start en st)) = seen st" by blast
  have "?P (snd (findIntervals_gotStart g start en c st))"
    by (rule findIntervals_preserves(2)[where P = ?P])
       (use assms in \<open>simp_all add: fetchColor_def\<close>)
  then show "colors (snd (findIntervals_gotStart g start en c st)) = colors st \<and>
         seen (snd (findIntervals_gotStart g start en c st)) = seen st" by blast
  have "?P (snd (findIntervals_gotEnd g start en c d st))"
    by (rule findIntervals_preserves(3)[where P = ?P])
       (use assms in \<open>simp_all add: fetchColor_def\<close>)
  then show "colors (snd (findIntervals_gotEnd g start en c d st)) = colors st \<and>
         seen (snd (findIntervals_gotEnd g start en c d st)) = seen st" by blast
qed

text \<open>
  The effect clears the cache before it starts the roots, so both roots miss on their
  first point: what the effect leaves can be written out.
\<close>

lemma findIntervals_miss:
  "cache st start = None \<Longrightarrow>
     findIntervals g start en st = (AwaitStart start en, fetchColor g start st)"
  by (simp add: findIntervals.simps[of g start en st] getColor_call_def)

lemma effect_unfold:
  "effect s l st0 =
     st0\<lparr>colors := [], loading := True, cache := Map.empty, runs := Suc (runs st0),
         deps := (deps st0)(runs st0 := (s, l)),
         cancelled := (if runs st0 = 0 then cancelled st0
                       else (cancelled st0)(runs st0 - 1 := True))(runs st0 := False),
         seen := (seen st0)(runs st0 := {}),
         fetched := (fetched st0)(runs st0 := [0, 180]),
         root := (root st0)(runs st0 := Join (AwaitStart 0 179) (AwaitStart 180 359))\<rparr>"
  by (simp add: effect_def Let_def cleanup_def findIntervals_miss fetchColor_def)

section \<open>The aggregator\<close>

lemma addColorIfUnique_seen:
  "name_value c \<in> seen st g \<Longrightarrow> addColorIfUnique g c st = st"
  by (simp add: addColorIfUnique_def)

lemma addColorIfUnique_names:
  assumes "set (map name_value (colors st)) \<subseteq> seen st g"
      and "distinct (map name_value (colors st))"
  shows "set (map name_value (colors (addColorIfUnique g c st)))
           \<subseteq> seen (addColorIfUnique g c st) g \<and>
         distinct (map name_value (colors (addColorIfUnique g c st)))"
  using assms by (auto simp: addColorIfUnique_def)

lemma foldl_addColorIfUnique_names:
  assumes "set (map name_value (colors st)) \<subseteq> seen st g"
      and "distinct (map name_value (colors st))"
  shows "set (map name_value (colors (foldl (\<lambda>s c. addColorIfUnique g c s) st cs)))
           \<subseteq> seen (foldl (\<lambda>s c. addColorIfUnique g c s) st cs) g \<and>
         distinct (map name_value (colors (foldl (\<lambda>s c. addColorIfUnique g c s) st cs)))"
  using assms
proof (induction cs arbitrary: st)
  case Nil
  then show ?case by simp
next
  case (Cons c cs)
  have "set (map name_value (colors (addColorIfUnique g c st)))
           \<subseteq> seen (addColorIfUnique g c st) g \<and>
        distinct (map name_value (colors (addColorIfUnique g c st)))"
    by (rule addColorIfUnique_names[OF Cons.prems])
  then show ?case using Cons.IH[of "addColorIfUnique g c st"] by simp
qed

section \<open>The list that is read\<close>

lemma map_sort_key: "map f (sort_key f xs) = sort (map f xs)"
  by (rule properties_for_sort[symmetric]) simp_all

text \<open>
  C7. The list the hook returns is ordered by hue (\<open>hsl.h\<close>, the position a sample
  carries), whatever the order of \<open>colors\<close>, that is of the emissions: it has the
  entries of \<open>colors\<close>, and two states with the same entries in different orders are
  read in the same order of hues.
\<close>

theorem colorsSorted_sorted:
  "sorted (map hsl_h (colorsSorted st)) \<and>
   mset (colorsSorted st) = mset (colors st) \<and>
   (\<forall>st'. mset (colors st') = mset (colors st) \<longrightarrow>
      map hsl_h (colorsSorted st') = map hsl_h (colorsSorted st))"
proof (intro conjI allI impI)
  show "sorted (map hsl_h (colorsSorted st))" by (simp add: colorsSorted_def)
  show "mset (colorsSorted st) = mset (colors st)" by (simp add: colorsSorted_def)
  fix st' :: app
  assume "mset (colors st') = mset (colors st)"
  then have "mset (map hsl_h (colors st')) = mset (map hsl_h (colors st))" by simp
  then have "sort (map hsl_h (colors st')) = sort (map hsl_h (colors st))"
    by (metis properties_for_sort sorted_sort mset_sort)
  then show "map hsl_h (colorsSorted st') = map hsl_h (colorsSorted st)"
    by (simp add: colorsSorted_def map_sort_key)
qed

theorem colorsSorted_sorted_witness:
  "colorsSorted (app0\<lparr>colors := [sample ''Blue'' 240, sample ''Red'' 0, sample ''Lime'' 120]\<rparr>)
     = [sample ''Red'' 0, sample ''Lime'' 120, sample ''Blue'' 240] \<and>
   mset (colors (app0\<lparr>colors := [sample ''Lime'' 120, sample ''Blue'' 240, sample ''Red'' 0]\<rparr>))
     = mset (colors (app0\<lparr>colors := [sample ''Blue'' 240, sample ''Red'' 0, sample ''Lime'' 120]\<rparr>)) \<and>
   map hsl_h (colorsSorted
       (app0\<lparr>colors := [sample ''Lime'' 120, sample ''Blue'' 240, sample ''Red'' 0]\<rparr>))
     = [0, 120, 240]"
proof -
  let ?a = "app0\<lparr>colors := [sample ''Blue'' 240, sample ''Red'' 0, sample ''Lime'' 120]\<rparr>"
  let ?b = "app0\<lparr>colors := [sample ''Lime'' 120, sample ''Blue'' 240, sample ''Red'' 0]\<rparr>"
  have m: "mset (colors ?b) = mset (colors ?a)" by (simp add: add.commute)
  have a: "colorsSorted ?a = [sample ''Red'' 0, sample ''Lime'' 120, sample ''Blue'' 240]"
    by (simp add: colorsSorted_def sample_def)
  have "map hsl_h (colorsSorted ?b) = map hsl_h (colorsSorted ?a)"
    using colorsSorted_sorted[of ?a] m by blast
  then have "map hsl_h (colorsSorted ?b) = [0, 120, 240]"
    unfolding a by (simp add: sample_def)
  with m a show ?thesis by blast
qed

section \<open>The cache\<close>

text \<open>
  C1, as the code has it. \<open>getColor\<close> issues no request for a hue the cache holds and
  returns the cached colour; for a hue the cache does not hold it issues one request
  of its own, whether or not an earlier request for that hue is still in flight: the
  cache is written when an answer arrives, and holds answers, not requests.
\<close>

theorem getColor_cache:
  "(cache st hue = Some data \<longrightarrow> getColor_call g hue st = (Some data, st)) \<and>
   (cache st hue = None \<longrightarrow>
      getColor_call g hue st = (None, fetchColor g hue st) \<and>
      fetched (fetchColor g hue st) g = fetched st g @ [hue] \<and>
      cache (fetchColor g hue st) = cache st) \<and>
   cache (getColor_resume hue data st) hue = Some data"
  by (simp add: getColor_call_def fetchColor_def getColor_resume_def)

theorem getColor_cache_witness:
  "cache (getColor_resume 7 (sample ''Red'' 7) (effect 50 50 app0)) 7 = Some (sample ''Red'' 7) \<and>
   fst (getColor_call 0 7 (getColor_resume 7 (sample ''Red'' 7) (effect 50 50 app0)))
     = Some (sample ''Red'' 7) \<and>
   cache (effect 50 50 app0) 7 = None \<and>
   fetched (snd (getColor_call 0 7 (effect 50 50 app0))) 0 = fetched (effect 50 50 app0) 0 @ [7]"
  using getColor_cache[of "getColor_resume 7 (sample ''Red'' 7) (effect 50 50 app0)" 7
      "sample ''Red'' 7" 0]
    getColor_cache[of "effect 50 50 app0" 7 "sample ''Red'' 7" 0]
  by (simp add: effect_unfold app0_def)

text \<open>
  The claim as the specification words it fails: two calls of \<open>getColor\<close> for hue 7,
  the second made while the request of the first is in flight, issue two requests.
\<close>

theorem getColor_concurrent_counterexample:
  "fst (getColor_call 0 7 (effect 50 50 app0)) = None \<and>
   fst (getColor_call 0 7 (snd (getColor_call 0 7 (effect 50 50 app0)))) = None \<and>
   fetched (snd (getColor_call 0 7 (snd (getColor_call 0 7 (effect 50 50 app0))))) 0
     = fetched (effect 50 50 app0) 0 @ [7, 7]"
  by (simp add: getColor_call_def fetchColor_def effect_unfold app0_def)

section \<open>The recursion of the search\<close>

text \<open>How deep one turn can go.\<close>

lemma findIntervals_depth:
  "depth (fst (findIntervals g start en st)) \<le> nat (en - start) - 1"
  "depth (fst (findIntervals_gotStart g start en c st)) \<le> nat (en - start) - 1"
  "depth (fst (findIntervals_gotEnd g start en c d st)) \<le> nat (en - start) - 1"
proof (induction g start en st and g start en c st and g start en c d st
    rule: findIntervals_induct)
  case (1 g start en st)
  then show ?case
    by (cases "getColor_call g start st")
       (auto simp: findIntervals.simps[of g start en st] split: option.splits)
next
  case (2 g start en colorStart st)
  then show ?case
    by (cases "getColor_call g en st")
       (auto simp: findIntervals_gotStart.simps[of g start en colorStart st]
          split: option.splits)
next
  case (3 g start en colorStart colorEnd st)
  let ?mid = "mid_point start en"
  let ?next = "plus_one (mid_point start en)"
  show ?case
  proof (cases "cancelled st g \<or> name_value colorStart = name_value colorEnd \<or>
      en - start \<le> 1 \<or> \<not> halves_shorter start en")
    case True
    then show ?thesis
      by (auto simp: findIntervals_gotEnd.simps[of g start en colorStart colorEnd st])
  next
    case False
    obtain l st1 where l: "findIntervals g start ?mid st = (l, st1)"
      by (cases "findIntervals g start ?mid st")
    obtain r st2 where r: "findIntervals g ?next en st1 = (r, st2)"
      by (cases "findIntervals g ?next en st1")
    have dl: "depth l \<le> nat (?mid - start) - 1"
      using "3.IH"(1) False l by simp
    have dr: "depth r \<le> nat (en - ?next) - 1"
      using "3.IH"(2)[OF _ _ _ _ l[symmetric]] False r by simp
    have h: "start \<le> ?mid" "?mid < en" "start < ?next" "?next \<le> en"
      using False by (simp_all add: halves_shorter_def)
    have b: "2 \<le> en - start" using False by simp
    have "Suc (max (depth l) (depth r)) \<le> nat (en - start) - 1"
      using dl dr h b by linarith
    then show ?thesis using False l r
      by (simp add: findIntervals_gotEnd.simps[of g start en colorStart colorEnd st])
  qed
qed

text \<open>
  How much work one turn can leave, for an interval of integers from 0 to \<open>2 ^ 53\<close>.
\<close>

lemma findIntervals_work:
  "0 \<le> start \<Longrightarrow> en \<le> 2 ^ 53 \<Longrightarrow>
     work (fst (findIntervals g start en st)) \<le> 4 * nat (en - start) + 2"
  "0 \<le> start \<Longrightarrow> en \<le> 2 ^ 53 \<Longrightarrow>
     work (fst (findIntervals_gotStart g start en c st)) \<le> 4 * nat (en - start) + 1"
  "0 \<le> start \<Longrightarrow> en \<le> 2 ^ 53 \<Longrightarrow>
     work (fst (findIntervals_gotEnd g start en c d st)) \<le> 4 * nat (en - start)"
proof (induction g start en st and g start en c st and g start en c d st
    rule: findIntervals_induct)
  case (1 g start en st)
  show ?case
  proof (cases "getColor_call g start st")
    case (Pair a st1)
    then show ?thesis using "1.IH"[of a st1] "1.prems"
      by (cases a) (auto simp: findIntervals.simps[of g start en st])
  qed
next
  case (2 g start en colorStart st)
  show ?case
  proof (cases "getColor_call g en st")
    case (Pair a st1)
    then show ?thesis using "2.IH"[of a st1] "2.prems"
      by (cases a) (auto simp: findIntervals_gotStart.simps[of g start en colorStart st])
  qed
next
  case (3 g start en colorStart colorEnd st)
  let ?mid = "mid_point start en"
  let ?next = "plus_one (mid_point start en)"
  show ?case
  proof (cases "cancelled st g \<or> name_value colorStart = name_value colorEnd \<or>
      en - start \<le> 1 \<or> \<not> halves_shorter start en")
    case True
    then show ?thesis
      by (auto simp: findIntervals_gotEnd.simps[of g start en colorStart colorEnd st])
  next
    case False
    have b: "2 \<le> en - start" using False by simp
    have n: "?next = ?mid + 1" by (rule halves_up_to_2_53(2)[OF "3.prems" b])
    have m: "start \<le> ?mid" "?mid < en" "start < ?next" "?next \<le> en"
      using False by (simp_all add: halves_shorter_def)
    obtain l st1 where l: "findIntervals g start ?mid st = (l, st1)"
      by (cases "findIntervals g start ?mid st")
    obtain r st2 where r: "findIntervals g ?next en st1 = (r, st2)"
      by (cases "findIntervals g ?next en st1")
    have "work (fst (findIntervals g start ?mid st)) \<le> 4 * nat (?mid - start) + 2"
      using "3.IH"(1) False "3.prems" m by simp
    then have wl: "work l \<le> 4 * nat (?mid - start) + 2" using l by simp
    have "work (fst (findIntervals g ?next en st1)) \<le> 4 * nat (en - ?next) + 2"
      using "3.IH"(2)[OF _ _ _ _ l[symmetric]] False "3.prems" m by simp
    then have wr: "work r \<le> 4 * nat (en - ?next) + 2" using r by simp
    have "work l + work r \<le> 4 * nat (en - start)"
      using wl wr m unfolding n by linarith
    then show ?thesis using False l r
      by (simp add: findIntervals_gotEnd.simps[of g start en colorStart colorEnd st])
  qed
qed

text \<open>
  The invocations one turn leaves work inside the interval, and none of them is
  \<open>Forever\<close>.
\<close>

lemma findIntervals_confined:
  assumes "0 \<le> lo" and "hi \<le> 2 ^ 53"
  shows "lo \<le> start \<Longrightarrow> start \<le> hi \<Longrightarrow> lo \<le> en \<Longrightarrow> en \<le> hi \<Longrightarrow>
           confined lo hi (fst (findIntervals g start en st))"
    and "lo \<le> start \<Longrightarrow> start \<le> hi \<Longrightarrow> lo \<le> en \<Longrightarrow> en \<le> hi \<Longrightarrow>
           confined lo hi (fst (findIntervals_gotStart g start en c st))"
    and "lo \<le> start \<Longrightarrow> start \<le> hi \<Longrightarrow> lo \<le> en \<Longrightarrow> en \<le> hi \<Longrightarrow>
           confined lo hi (fst (findIntervals_gotEnd g start en c d st))"
proof (induction g start en st and g start en c st and g start en c d st
    rule: findIntervals_induct)
  case (1 g start en st)
  show ?case
  proof (cases "getColor_call g start st")
    case (Pair a st1)
    then show ?thesis using "1.IH"[of a st1] "1.prems"
      by (cases a) (auto simp: findIntervals.simps[of g start en st])
  qed
next
  case (2 g start en colorStart st)
  show ?case
  proof (cases "getColor_call g en st")
    case (Pair a st1)
    then show ?thesis using "2.IH"[of a st1] "2.prems"
      by (cases a) (auto simp: findIntervals_gotStart.simps[of g start en colorStart st])
  qed
next
  case (3 g start en colorStart colorEnd st)
  let ?mid = "mid_point start en"
  let ?next = "plus_one (mid_point start en)"
  show ?case
  proof (cases "cancelled st g \<or> name_value colorStart = name_value colorEnd \<or>
      en - start \<le> 1")
    case True
    then show ?thesis
      by (auto simp: findIntervals_gotEnd.simps[of g start en colorStart colorEnd st])
  next
    case False
    have b: "2 \<le> en - start" using False by simp
    have ps: "0 \<le> start" using assms(1) "3.prems"(1) by simp
    have ue: "en \<le> 2 ^ 53" using assms(2) "3.prems"(4) by simp
    have hs: "halves_shorter start en" by (rule halves_up_to_2_53(1)[OF ps ue b])
    have m: "start \<le> ?mid" "?mid < en" "start < ?next" "?next \<le> en"
      using hs by (simp_all add: halves_shorter_def)
    obtain l st1 where l: "findIntervals g start ?mid st = (l, st1)"
      by (cases "findIntervals g start ?mid st")
    obtain r st2 where r: "findIntervals g ?next en st1 = (r, st2)"
      by (cases "findIntervals g ?next en st1")
    have "confined lo hi (fst (findIntervals g start ?mid st))"
      using "3.IH"(1) False hs "3.prems" m by simp
    then have wl: "confined lo hi l" using l by simp
    have "confined lo hi (fst (findIntervals g ?next en st1))"
      using "3.IH"(2)[OF _ _ _ _ l[symmetric]] False hs "3.prems" m by simp
    then have wr: "confined lo hi r" using r by simp
    show ?thesis using False hs l r wl wr
      by (simp add: findIntervals_gotEnd.simps[of g start en colorStart colorEnd st])
  qed
qed

text \<open>Every fetch that settles lowers the bound, and leaves the task inside its interval.\<close>

lemma resolve_confined:
  assumes "0 \<le> lo" and "hi \<le> 2 ^ 53"
  shows "confined lo hi t \<Longrightarrow> resolve g p data t st = Some (t', st') \<Longrightarrow>
           confined lo hi t' \<and> work t' < work t"
proof (induction g p data t st arbitrary: t' st' rule: resolve.induct)
  case (1 g data start en st)
  have b: "lo \<le> start" "start \<le> hi" "lo \<le> en" "en \<le> hi" using "1.prems"(1) by simp_all
  have ps: "0 \<le> start" using assms(1) b(1) by simp
  have ue: "en \<le> 2 ^ 53" using assms(2) b(4) by simp
  have t': "t' = fst (findIntervals_gotStart g start en data (getColor_resume start data st))"
    using "1.prems"(2) by auto
  show ?case unfolding t'
    using findIntervals_confined(2)[OF assms b]
      findIntervals_work(2)[OF ps ue, of g data "getColor_resume start data st"]
    by simp
next
  case (2 g data start en colorStart st)
  have b: "lo \<le> start" "start \<le> hi" "lo \<le> en" "en \<le> hi" using "2.prems"(1) by simp_all
  have ps: "0 \<le> start" using assms(1) b(1) by simp
  have ue: "en \<le> 2 ^ 53" using assms(2) b(4) by simp
  have t': "t' = fst (findIntervals_gotEnd g start en colorStart data
                       (getColor_resume en data st))"
    using "2.prems"(2) by auto
  show ?case unfolding t'
    using findIntervals_confined(3)[OF assms b]
      findIntervals_work(3)[OF ps ue, of g colorStart data "getColor_resume en data st"]
    by simp
next
  case (3 g p data l r st)
  then show ?case by (auto split: option.splits)
next
  case (4 g p data l r st)
  then show ?case by (auto split: option.splits)
qed simp_all

lemma reject_confined:
  "confined lo hi t \<Longrightarrow> reject p t = Some t' \<Longrightarrow> confined lo hi t' \<and> work t' < work t"
  by (induction p t arbitrary: t' rule: reject.induct) (auto split: option.splits)

section \<open>What an invocation does with its two samples\<close>

lemma findIntervals_hit:
  "cache st start = Some cs \<Longrightarrow>
     findIntervals g start en st = findIntervals_gotStart g start en cs st"
  by (simp add: findIntervals.simps[of g start en st] getColor_call_def)

lemma findIntervals_gotStart_hit:
  "cache st en = Some ce \<Longrightarrow>
     findIntervals_gotStart g start en cs st = findIntervals_gotEnd g start en cs ce st"
  by (simp add: findIntervals_gotStart.simps[of g start en cs st] getColor_call_def)

lemma findIntervals_gotStart_miss:
  "cache st en = None \<Longrightarrow>
     findIntervals_gotStart g start en cs st = (AwaitEnd start en cs, fetchColor g en st)"
  by (simp add: findIntervals_gotStart.simps[of g start en cs st] getColor_call_def)


lemma cache_fetchColor [simp]: "cache (fetchColor g h st) = cache st"
  by (simp add: fetchColor_def)

lemma colors_fetchColor [simp]: "colors (fetchColor g h st) = colors st"
  by (simp add: fetchColor_def)

lemma seen_fetchColor [simp]: "seen (fetchColor g h st) = seen st"
  by (simp add: fetchColor_def)



section \<open>Cancellation inside an invocation\<close>

text \<open>
  C4, as the code has it. The flag is read at one place (line 164), after both
  samples have been awaited and before anything is added or split. For a cancelled
  run an invocation therefore adds no colour and starts no invocation, wherever it
  is entered; but entered at its call, or after its first await, it still calls
  \<open>fetchColor\<close> for a point the cache does not hold.
\<close>

theorem findIntervals_cancelled:
  "cancelled st g \<Longrightarrow>
     findIntervals_gotEnd g start en cs ce st = (Done, st) \<and>
     colors (snd (findIntervals g start en st)) = colors st \<and>
     seen (snd (findIntervals g start en st)) = seen st \<and>
     colors (snd (findIntervals_gotStart g start en cs st)) = colors st \<and>
     seen (snd (findIntervals_gotStart g start en cs st)) = seen st \<and>
     depth (fst (findIntervals g start en st)) = 0 \<and>
     depth (fst (findIntervals_gotStart g start en cs st)) = 0 \<and>
     (cache st start = None \<longrightarrow>
        findIntervals g start en st = (AwaitStart start en, fetchColor g start st)) \<and>
     (cache st en = None \<longrightarrow>
        findIntervals_gotStart g start en cs st = (AwaitEnd start en cs, fetchColor g en st))"
proof -
  assume c: "cancelled st g"
  have e: "\<And>a b. findIntervals_gotEnd g start en a b st = (Done, st)"
    using c by (simp add: findIntervals_gotEnd.simps[of g start en _ _ st])
  have s: "\<And>a. depth (fst (findIntervals_gotStart g start en a st)) = 0"
  proof -
    fix a
    show "depth (fst (findIntervals_gotStart g start en a st)) = 0"
      by (cases "cache st en") (simp_all add: findIntervals_gotStart_miss
          findIntervals_gotStart_hit e)
  qed
  have f: "depth (fst (findIntervals g start en st)) = 0"
    by (cases "cache st start") (simp_all add: findIntervals_miss findIntervals_hit s)
  show ?thesis
    using e s f findIntervals_cancelled_colors(1)[OF c, of start en]
      findIntervals_cancelled_colors(2)[OF c, of start en cs]
      findIntervals_miss[of st start g en] findIntervals_gotStart_miss[of st en g start cs]
    by simp
qed

theorem findIntervals_cancelled_witness:
  "cancelled (cleanup 0 (effect 50 50 app0)) 0 \<and>
   findIntervals_gotEnd 0 0 179 (sample ''Red'' 0) (sample ''Blue'' 179)
     (cleanup 0 (effect 50 50 app0)) = (Done, cleanup 0 (effect 50 50 app0)) \<and>
   colors (snd (findIntervals 0 0 179 (cleanup 0 (effect 50 50 app0)))) = [] \<and>
   cache (cleanup 0 (effect 50 50 app0)) 0 = None \<and>
   fst (findIntervals 0 0 179 (cleanup 0 (effect 50 50 app0))) = AwaitStart 0 179"
proof -
  let ?C = "cleanup 0 (effect 50 50 app0)"
  have c: "cancelled ?C 0" by (simp add: cleanup_def)
  have m: "cache ?C 0 = None" by (simp add: cleanup_def effect_unfold app0_def)
  have n: "colors ?C = []" by (simp add: cleanup_def effect_unfold app0_def)
  show ?thesis
    using findIntervals_cancelled[OF c, of 0 179 "sample ''Red'' 0" "sample ''Blue'' 179"] c m n
    by simp
qed

text \<open>
  The claim as the specification words it fails. An invocation that begins when its
  run is already cancelled does not return at once: it calls \<open>fetchColor\<close> and waits.
  And in a run of the hook, when the first run has been superseded while its root
  waits for hue 0 and that fetch still fulfils, the root goes on to call \<open>fetchColor\<close>
  for hue 179: the flag is not read between the two awaits.
\<close>

theorem findIntervals_cancelled_counterexample:
  "cancelled (cleanup 0 (effect 50 50 app0)) 0 \<and>
   fst (findIntervals 0 0 89 (cleanup 0 (effect 50 50 app0))) = AwaitStart 0 89 \<and>
   fetched (snd (findIntervals 0 0 89 (cleanup 0 (effect 50 50 app0)))) 0
     = fetched (cleanup 0 (effect 50 50 app0)) 0 @ [0] \<and>
   run [Effect 50 50, Effect 60 50, Resolve 0 [First] (sample ''Red'' 0)] app0 \<noteq> None \<and>
   cancelled (the (run [Effect 50 50, Effect 60 50] app0)) 0 \<and>
   fetched (the (run [Effect 50 50, Effect 60 50] app0)) 0 = [0, 180] \<and>
   fetched (the (run [Effect 50 50, Effect 60 50, Resolve 0 [First] (sample ''Red'' 0)] app0)) 0
     = [0, 180, 179]"
  by (simp add: cleanup_def effect_unfold app0_def findIntervals_miss fetchColor_def
      findIntervals_gotStart_miss getColor_resume_def settle_def)

section \<open>Turns: what a settled fetch changes\<close>

lemma same_frame_refl [simp]: "same_frame g st st"
  by (simp add: same_frame_def)

lemma resolve_frame:
  "resolve g p data t st = Some (t', st') \<Longrightarrow>
     \<exists>h. same_frame g (getColor_resume h data st) st'"
proof (induction g p data t st arbitrary: t' st' rule: resolve.induct)
  case (1 g data start en st)
  then show ?case
    using findIntervals_frame(2)[of g "getColor_resume start data st" start en data]
    by auto
next
  case (2 g data start en colorStart st)
  then show ?case
    using findIntervals_frame(3)[of g "getColor_resume en data st" start en colorStart data]
    by auto
next
  case (3 g p data l r st)
  then show ?case by (auto split: option.splits)
next
  case (4 g p data l r st)
  then show ?case by (auto split: option.splits)
qed simp_all

lemma resolve_keeps:
  assumes "resolve g p data t st = Some (t', st')"
  shows "loading st' = loading st" "runs st' = runs st" "cancelled st' = cancelled st"
    "root st' = root st" "deps st' = deps st"
    "g' \<noteq> g \<Longrightarrow> seen st' g' = seen st g'"
    "g' \<noteq> g \<Longrightarrow> fetched st' g' = fetched st g'"
  using resolve_frame[OF assms] by (auto simp: same_frame_def getColor_resume_def)

lemma resolve_cancelled:
  "resolve g p data t st = Some (t', st') \<Longrightarrow> cancelled st g \<Longrightarrow>
     colors st' = colors st \<and> seen st' = seen st"
proof (induction g p data t st arbitrary: t' st' rule: resolve.induct)
  case (1 g data start en st)
  have "cancelled (getColor_resume start data st) g"
    using 1 by (simp add: getColor_resume_def)
  from findIntervals_cancelled_colors(2)[OF this, of start en data] 1
  show ?case by (auto simp: getColor_resume_def)
next
  case (2 g data start en colorStart st)
  have "cancelled (getColor_resume en data st) g"
    using 2 by (simp add: getColor_resume_def)
  from findIntervals_cancelled_colors(3)[OF this, of start en colorStart data] 2
  show ?case by (auto simp: getColor_resume_def)
next
  case (3 g p data l r st)
  then show ?case by (auto split: option.splits)
next
  case (4 g p data l r st)
  then show ?case by (auto split: option.splits)
qed simp_all

text \<open>A rejected promise stays rejected, a fulfilled one waits for nothing.\<close>

lemma resolve_Rejected:
  "resolve g p data t st = Some (t', st') \<Longrightarrow> status t = Rejected \<Longrightarrow> status t' = Rejected"
  by (induction g p data t st arbitrary: t' st' rule: resolve.induct)
     (auto split: option.splits if_splits)

lemma reject_Rejected:
  "reject p t = Some t' \<Longrightarrow> status t' = Rejected"
  by (induction p t arbitrary: t' rule: reject.induct) (auto split: option.splits)

lemma resolve_Fulfilled:
  "status t = Fulfilled \<Longrightarrow> resolve g p data t st = None"
  by (induction g p data t st rule: resolve.induct) (auto split: option.splits if_splits)

lemma reject_Fulfilled:
  "status t = Fulfilled \<Longrightarrow> reject p t = None"
  by (induction p t rule: reject.induct) (auto split: option.splits if_splits)

text \<open>A settled fetch changes the invocation that awaited it, and no invocation apart from it.\<close>

lemma reject_subtask:
  "reject p t = Some t' \<Longrightarrow> subtask p t' = Some Failed"
  by (induction p t arbitrary: t' rule: reject.induct) (auto split: option.splits)

lemma reject_apart:
  "reject p t = Some t' \<Longrightarrow> apart p q \<Longrightarrow> subtask q t' = subtask q t"
proof (induction p t arbitrary: t' q rule: reject.induct)
  case (3 p l r)
  show ?case
  proof (cases q)
    case Nil
    then show ?thesis using 3 by simp
  next
    case (Cons a q')
    then show ?thesis using 3 by (cases a) (auto split: option.splits)
  qed
next
  case (4 p l r)
  show ?case
  proof (cases q)
    case Nil
    then show ?thesis using 4 by simp
  next
    case (Cons a q')
    then show ?thesis using 4 by (cases a) (auto split: option.splits)
  qed
qed simp_all

lemma resolve_apart:
  "resolve g p data t st = Some (t', st') \<Longrightarrow> apart p q \<Longrightarrow> subtask q t' = subtask q t"
proof (induction g p data t st arbitrary: t' st' q rule: resolve.induct)
  case (3 g p data l r st)
  show ?case
  proof (cases q)
    case Nil
    then show ?thesis using 3 by simp
  next
    case (Cons a q')
    then show ?thesis using 3 by (cases a) (auto split: option.splits)
  qed
next
  case (4 g p data l r st)
  show ?case
  proof (cases q)
    case Nil
    then show ?thesis using 4 by simp
  next
    case (Cons a q')
    then show ?thesis using 4 by (cases a) (auto split: option.splits)
  qed
qed simp_all

section \<open>Runs of the hook\<close>

lemma wf_app0: "wf app0"
  by (simp add: wf_def app0_def)

lemma wf_effect: "wf st \<Longrightarrow> wf (effect s l st)"
  by (auto simp: wf_def effect_unfold less_Suc_eq)

lemma step_runs:
  "step ev st = Some st' \<Longrightarrow> no_effect ev \<Longrightarrow> runs st' = runs st"
  by (cases ev) (auto simp: settle_def split: if_splits option.splits dest: resolve_keeps(2))

lemma step_Resolve_cases:
  assumes "step (Resolve g p data) st = Some st'"
  obtains t s where "g < runs st" "resolve g p data (root st g) st = Some (t, s)"
    "st' = settle g (s\<lparr>root := (root s)(g := t)\<rparr>)"
  using assms by (auto split: if_splits option.splits)

lemma step_Reject_cases:
  assumes "step (Reject g p) st = Some st'"
  obtains t where "g < runs st" "reject p (root st g) = Some t"
    "st' = st\<lparr>root := (root st)(g := t)\<rparr>"
  using assms by (auto split: if_splits option.splits)

lemma wf_step:
  assumes "wf st" and "step ev st = Some st'"
  shows "wf st'"
proof (cases ev)
  case (Effect s l)
  then show ?thesis using assms wf_effect by auto
next
  case (Resolve g p data)
  from assms(2)[unfolded Resolve] obtain t s where
    g: "g < runs st" and r: "resolve g p data (root st g) st = Some (t, s)"
    and st': "st' = settle g (s\<lparr>root := (root s)(g := t)\<rparr>)"
    by (rule step_Resolve_cases)
  note k = resolve_keeps[OF r]
  have nf: "status (root st g) \<noteq> Fulfilled"
    using r resolve_Fulfilled[of "root st g" g p data st] by auto
  show ?thesis
  proof (cases "Suc g = runs st")
    case True
    then show ?thesis using assms(1) nf k st'
      by (auto simp: wf_def settle_def)
  next
    case False
    then have "cancelled st g" using assms(1) g by (auto simp: wf_def)
    moreover have "g \<noteq> runs st - 1" using False g by auto
    ultimately show ?thesis using assms(1) k st'
      by (auto simp: wf_def settle_def)
  qed
next
  case (Reject g p)
  from assms(2)[unfolded Reject] obtain t where
    g: "g < runs st" and r: "reject p (root st g) = Some t"
    and st': "st' = st\<lparr>root := (root st)(g := t)\<rparr>"
    by (rule step_Reject_cases)
  have nf: "status (root st g) \<noteq> Fulfilled"
    using r reject_Fulfilled[of "root st g" p] by auto
  show ?thesis using assms(1) nf st'
    by (auto simp: wf_def)
qed

lemma wf_run: "wf st \<Longrightarrow> run evs st = Some st' \<Longrightarrow> wf st'"
proof (induction evs arbitrary: st)
  case Nil
  then show ?case by simp
next
  case (Cons ev evs)
  then show ?case by (auto split: option.splits dest: wf_step)
qed

text \<open>A step of a cancelled run changes neither \<open>colors\<close> nor \<open>loading\<close> nor \<open>seen\<close>.\<close>

lemma step_cancelled:
  assumes "cancelled st g" and "step ev st = Some st'"
      and "ev = Resolve g p data \<or> ev = Reject g p"
  shows "colors st' = colors st \<and> loading st' = loading st \<and> seen st' = seen st \<and>
         cancelled st' = cancelled st"
proof -
  from assms(3) show ?thesis
  proof
    assume ev: "ev = Resolve g p data"
    from assms(2)[unfolded ev] obtain t s where
      r: "resolve g p data (root st g) st = Some (t, s)"
      and st': "st' = settle g (s\<lparr>root := (root s)(g := t)\<rparr>)"
      by (rule step_Resolve_cases)
    show ?thesis
      using resolve_cancelled[OF r assms(1)] resolve_keeps[OF r] assms(1) st'
      by (simp add: settle_def)
  next
    assume ev: "ev = Reject g p"
    from assms(2)[unfolded ev] show ?thesis
      by (rule step_Reject_cases) simp
  qed
qed

text \<open>Once the root of the last run is rejected, no turn but a new effect clears \<open>loading\<close>.\<close>

lemma rejected_step:
  assumes "wf st" and "Suc g = runs st" and "status (root st g) = Rejected" and "loading st"
      and "step ev st = Some st'" and "no_effect ev"
  shows "status (root st' g) = Rejected \<and> loading st'"
proof (cases ev)
  case (Effect s l)
  then show ?thesis using assms(6) by simp
next
  case (Resolve g' p data)
  from assms(5)[unfolded Resolve] obtain t s where
    g': "g' < runs st" and r: "resolve g' p data (root st g') st = Some (t, s)"
    and st': "st' = settle g' (s\<lparr>root := (root s)(g' := t)\<rparr>)"
    by (rule step_Resolve_cases)
  note k = resolve_keeps[OF r]
  show ?thesis
  proof (cases "g' = g")
    case True
    then have "status t = Rejected" using resolve_Rejected[OF r] assms(3) by simp
    then show ?thesis using True k st' assms(4) by (simp add: settle_def)
  next
    case False
    then have "cancelled st g'" using assms(1,2) g' by (auto simp: wf_def)
    then show ?thesis using False k st' assms(3,4) by (simp add: settle_def)
  qed
next
  case (Reject g' p)
  from assms(5)[unfolded Reject] obtain t where
    r: "reject p (root st g') = Some t" and st': "st' = st\<lparr>root := (root st)(g' := t)\<rparr>"
    by (rule step_Reject_cases)
  show ?thesis using reject_Rejected[OF r] st' assms(3,4) by simp
qed

lemma rejected_run:
  assumes "wf st" and "Suc g = runs st" and "status (root st g) = Rejected" and "loading st"
      and "run evs st = Some st'" and "\<forall>ev \<in> set evs. no_effect ev"
  shows "status (root st' g) = Rejected \<and> loading st'"
  using assms
proof (induction evs arbitrary: st)
  case Nil
  then show ?case by simp
next
  case (Cons ev evs)
  from Cons.prems(5) obtain s where s: "step ev st = Some s" and r: "run evs s = Some st'"
    by (auto split: option.splits)
  have ne: "no_effect ev" using Cons.prems(6) by simp
  have "status (root s g) = Rejected \<and> loading s"
    by (rule rejected_step[OF Cons.prems(1-4) s ne])
  moreover have "wf s" by (rule wf_step[OF Cons.prems(1) s])
  moreover have "Suc g = runs s" using step_runs[OF s ne] Cons.prems(2) by simp
  ultimately show ?case using Cons.IH[of s] r Cons.prems(6) by simp
qed

text \<open>
  C2, as the code has it. When a fetch of the last run rejects, the invocation that
  awaited it ends as failed; no colour is added, no request is made again, the cache
  is not written; the invocations apart from it are as they were and go on. The
  rejection passes through every \<open>Promise.all\<close> above it to the root, and from then on,
  whatever the other fetches of the run do, the root stays rejected and \<open>loading\<close>
  stays set: only a later run of the effect can clear it.
\<close>

theorem sampler_failure:
  assumes "run evs0 app0 = Some st"
      and "Suc g = runs st"
      and "step (Reject g p) st = Some st1"
      and "\<forall>ev \<in> set evs. no_effect ev"
      and "run evs st1 = Some st2"
  shows "colors st1 = colors st \<and> seen st1 = seen st \<and> cache st1 = cache st \<and>
         fetched st1 = fetched st \<and>
         subtask p (root st1 g) = Some Failed \<and>
         (\<forall>q. apart p q \<longrightarrow> subtask q (root st1 g) = subtask q (root st g)) \<and>
         status (root st1 g) = Rejected \<and>
         status (root st2 g) = Rejected \<and> loading st2"
proof -
  have wf: "wf st" by (rule wf_run[OF wf_app0 assms(1)])
  from assms(3) obtain t where
    r: "reject p (root st g) = Some t" and st1: "st1 = st\<lparr>root := (root st)(g := t)\<rparr>"
    by (rule step_Reject_cases)
  have nf: "status (root st g) \<noteq> Fulfilled"
    using r reject_Fulfilled[of "root st g" p] by auto
  have gg: "runs st - 1 = g" "0 < runs st" using assms(2) by simp_all
  have "loading st \<or> status (root st (runs st - 1)) = Fulfilled"
    using wf gg(2) by (simp add: wf_def)
  then have l: "loading st" using nf gg(1) by auto
  have wf1: "wf st1" by (rule wf_step[OF wf assms(3)])
  have rj: "status (root st1 g) = Rejected" using reject_Rejected[OF r] st1 by simp
  have "status (root st2 g) = Rejected \<and> loading st2"
    by (rule rejected_run[OF wf1 _ rj _ assms(5,4)]) (use assms(2) l st1 in simp_all)
  then show ?thesis
    using st1 rj reject_subtask[OF r] reject_apart[OF r] by simp
qed

lemmas run_simps =
  effect_unfold app0_def findIntervals_miss findIntervals_hit findIntervals_gotStart_miss
  findIntervals_gotStart_hit findIntervals_gotEnd.simps fetchColor_def getColor_resume_def
  addColorIfUnique_def settle_def sample_def mid_point_safe plus_one_safe halves_shorter_def

theorem sampler_failure_witness:
  "run [Effect 50 50] app0 = Some (effect 50 50 app0) \<and>
   Suc 0 = runs (effect 50 50 app0) \<and>
   step (Reject 0 [First]) (effect 50 50 app0) \<noteq> None \<and>
   run [Resolve 0 [Second] (sample ''Red'' 180), Resolve 0 [Second] (sample ''Red'' 359)]
     (the (step (Reject 0 [First]) (effect 50 50 app0))) \<noteq> None \<and>
   subtask [First] (root (the (step (Reject 0 [First]) (effect 50 50 app0))) 0) = Some Failed \<and>
   subtask [Second] (root (the (step (Reject 0 [First]) (effect 50 50 app0))) 0)
     = Some (AwaitStart 180 359) \<and>
   status (root (the (run [Resolve 0 [Second] (sample ''Red'' 180),
       Resolve 0 [Second] (sample ''Red'' 359)]
     (the (step (Reject 0 [First]) (effect 50 50 app0))))) 0) = Rejected \<and>
   loading (the (run [Resolve 0 [Second] (sample ''Red'' 180),
       Resolve 0 [Second] (sample ''Red'' 359)]
     (the (step (Reject 0 [First]) (effect 50 50 app0)))))"
proof -
  let ?st = "effect 50 50 app0"
  let ?st1 = "the (step (Reject 0 [First]) ?st)"
  let ?evs = "[Resolve 0 [Second] (sample ''Red'' 180), Resolve 0 [Second] (sample ''Red'' 359)]"
  let ?st2 = "the (run ?evs ?st1)"
  have h1: "run [Effect 50 50] app0 = Some ?st" by simp
  have h2: "Suc 0 = runs ?st" by (simp add: effect_unfold app0_def)
  have h3: "step (Reject 0 [First]) ?st = Some ?st1" by (simp add: effect_unfold app0_def)
  have h4: "\<forall>ev \<in> set ?evs. no_effect ev" by simp
  have h5: "run ?evs ?st1 = Some ?st2" by (simp add: run_simps)
  have n3: "step (Reject 0 [First]) ?st \<noteq> None" by (simp add: effect_unfold app0_def)
  have n5: "run ?evs ?st1 \<noteq> None" by (simp add: run_simps)
  have a: "apart [First] [Second]" by simp
  have s: "subtask [Second] (root ?st 0) = Some (AwaitStart 180 359)"
    by (simp add: effect_unfold app0_def)
  note c = sampler_failure[OF h1 h2 h3 h4 h5]
  have c1: "subtask [First] (root ?st1 0) = Some Failed" using c by blast
  have "subtask [Second] (root ?st1 0) = subtask [Second] (root ?st 0)" using c a by blast
  then have c2: "subtask [Second] (root ?st1 0) = Some (AwaitStart 180 359)"
    using s by (rule trans)
  have c3: "status (root ?st2 0) = Rejected" using c by blast
  have c4: "loading ?st2" using c by blast
  show ?thesis using h1 h2 n3 n5 c1 c2 c3 c4 by blast
qed

text \<open>
  The claim as the specification words it fails in its last part. The fetch for hue 0
  rejects; the other root search goes on and ends, having added its colour; every
  branch has settled and \<open>loading\<close> is still set.
\<close>

theorem sampler_failure_counterexample:
  "run [Effect 50 50, Reject 0 [First], Resolve 0 [Second] (sample ''Red'' 180),
        Resolve 0 [Second] (sample ''Red'' 359)] app0 \<noteq> None \<and>
   root (the (run [Effect 50 50, Reject 0 [First], Resolve 0 [Second] (sample ''Red'' 180),
        Resolve 0 [Second] (sample ''Red'' 359)] app0)) 0 = Join Failed Done \<and>
   colors (the (run [Effect 50 50, Reject 0 [First], Resolve 0 [Second] (sample ''Red'' 180),
        Resolve 0 [Second] (sample ''Red'' 359)] app0)) = [sample ''Red'' 180] \<and>
   \<not> cancelled (the (run [Effect 50 50, Reject 0 [First],
        Resolve 0 [Second] (sample ''Red'' 180),
        Resolve 0 [Second] (sample ''Red'' 359)] app0)) 0 \<and>
   loading (the (run [Effect 50 50, Reject 0 [First], Resolve 0 [Second] (sample ''Red'' 180),
        Resolve 0 [Second] (sample ''Red'' 359)] app0))"
  by (simp add: run_simps)

section \<open>A superseded run\<close>

text \<open>A fetch that rejects changes the task that awaited it, and nothing else.\<close>

lemma reject_keeps:
  assumes "step (Reject g p) st = Some st'"
  shows "cache st' = cache st \<and> colors st' = colors st \<and> loading st' = loading st \<and>
         seen st' = seen st \<and> fetched st' = fetched st"
  using assms by (rule step_Reject_cases) simp

text \<open>
  C3. A run that has been superseded never changes \<open>colors\<close>, \<open>seen\<close> or \<open>loading\<close>
  (\<open>step_cancelled\<close>): both places that write them read \<open>cancelled\<close> first; and a
  fetch of it that rejects, as an aborted fetch does, changes nothing
  (\<open>reject_keeps\<close>). The write to the cache in \<open>getColor\<close> (line 148) reads no
  flag, and the cache is the one \<open>Map\<close> of \<open>cacheRef\<close>, which a new run clears and goes
  on using. So when the first run is superseded while its root waits for hue 179,
  and that fetch still fulfils, its colour, fetched for the old pair of values, is
  stored in the cache of the second run; the second run then takes it for the colour
  of hue 179 and never asks for that hue. (The requests for 89 and 90 leave in one
  turn; they are listed in the order of the model, the browser sends the one for 90
  first.)
\<close>

theorem stale_resolution_writes_cache:
  "run [Effect 50 50, Resolve 0 [First] (sample ''Red'' 0), Effect 60 50,
        Resolve 0 [First] (sample ''Blue'' 179), Resolve 1 [First] (sample ''Gray'' 0)] app0
     \<noteq> None \<and>
   runs (the (run [Effect 50 50, Resolve 0 [First] (sample ''Red'' 0), Effect 60 50] app0))
     = 2 \<and>
   cancelled (the (run [Effect 50 50, Resolve 0 [First] (sample ''Red'' 0), Effect 60 50]
     app0)) 0 \<and>
   cache (the (run [Effect 50 50, Resolve 0 [First] (sample ''Red'' 0), Effect 60 50]
     app0)) 179 = None \<and>
   cache (the (run [Effect 50 50, Resolve 0 [First] (sample ''Red'' 0), Effect 60 50,
        Resolve 0 [First] (sample ''Blue'' 179)] app0)) 179 = Some (sample ''Blue'' 179) \<and>
   root (the (run [Effect 50 50, Resolve 0 [First] (sample ''Red'' 0), Effect 60 50,
        Resolve 0 [First] (sample ''Blue'' 179), Resolve 1 [First] (sample ''Gray'' 0)] app0)) 1
     = Join (Join (AwaitEnd 0 89 (sample ''Gray'' 0)) (AwaitStart 90 179)) (AwaitStart 180 359) \<and>
   fetched (the (run [Effect 50 50, Resolve 0 [First] (sample ''Red'' 0), Effect 60 50,
        Resolve 0 [First] (sample ''Blue'' 179), Resolve 1 [First] (sample ''Gray'' 0)] app0)) 1
     = [0, 180, 89, 90]"
  by (simp add: run_simps)

section \<open>A sampler that answers with one name\<close>

lemma findIntervals_gotEnd_uniform:
  "name_value cs = name_value ce \<Longrightarrow>
     findIntervals_gotEnd g start en cs ce st =
       (Done, if cancelled st g then st else addColorIfUnique g cs st)"
  by (simp add: findIntervals_gotEnd.simps[of g start en cs ce st])

lemma root_shape_cases:
  assumes "root_shape X a b t"
  obtains "t = AwaitStart a b" | c where "t = AwaitEnd a b c" "name_value c = X"
    | "t = Done" | "t = Failed"
  using assms by (cases t) auto

text \<open>One turn of a root search: the fetch it awaits fulfils with a colour named \<open>X\<close>.\<close>

lemma root_turn:
  assumes sh: "root_shape X a b t"
      and d: "name_value data = X"
      and ca: "\<forall>h c. cache st h = Some c \<longrightarrow> name_value c = X"
      and r: "resolve g [] data t st = Some (t', s)"
  shows "root_shape X a b t' \<and> t' \<noteq> AwaitStart a b \<and>
         (\<forall>h c. cache s h = Some c \<longrightarrow> name_value c = X) \<and>
         (fetched s g = fetched st g \<or> (t = AwaitStart a b \<and> fetched s g = fetched st g @ [b])) \<and>
         ((t' \<noteq> Done \<or> cancelled st g) \<and> colors s = colors st \<and> seen s g = seen st g \<or>
          (t' = Done \<and> \<not> cancelled st g \<and>
           (\<exists>c. name_value c = X \<and> colors s = colors (addColorIfUnique g c st) \<and>
              seen s g = seen (addColorIfUnique g c st) g)))"
proof -
  from sh show ?thesis
  proof (cases rule: root_shape_cases)
    case 1
    let ?s = "getColor_resume a data st"
    have ca': "\<forall>h c. cache ?s h = Some c \<longrightarrow> name_value c = X"
      using ca d by (simp add: getColor_resume_def)
    have r': "(t', s) = findIntervals_gotStart g a b data ?s" using r 1 by simp
    show ?thesis
    proof (cases "cache ?s b")
      case None
      then show ?thesis using r' 1 d ca'
        by (simp add: findIntervals_gotStart_miss fetchColor_def getColor_resume_def)
    next
      case (Some ce)
      then have "name_value ce = X" using ca' by blast
      then have "(t', s) = (Done, if cancelled ?s g then ?s else addColorIfUnique g data ?s)"
        using r' Some d by (simp add: findIntervals_gotStart_hit findIntervals_gotEnd_uniform)
      then show ?thesis using d ca
        by (auto simp: getColor_resume_def addColorIfUnique_def)
    qed
  next
    case (2 c)
    let ?s = "getColor_resume b data st"
    have "(t', s) = findIntervals_gotEnd g a b c data ?s" using r 2 by simp
    then have "(t', s) = (Done, if cancelled ?s g then ?s else addColorIfUnique g c ?s)"
      using 2 d by (simp add: findIntervals_gotEnd_uniform)
    then show ?thesis using d ca 2
      by (auto simp: getColor_resume_def addColorIfUnique_def)
  next
    case 3
    then show ?thesis using r by simp
  next
    case 4
    then show ?thesis using r by simp
  qed
qed

lemma root_shape_leaf:
  "root_shape X a b t \<Longrightarrow> resolve g p data t st = Some y \<Longrightarrow> p = []"
  by (cases t; cases p) auto

lemma root_shape_leaf_reject:
  "root_shape X a b t \<Longrightarrow> reject p t = Some y \<Longrightarrow>
     p = [] \<and> y = Failed \<and> t \<noteq> Done"
  by (cases t; cases p) auto

lemma uniform_add:
  assumes "(colors st = [] \<and> seen st g = {}) \<or>
           (map name_value (colors st) = [X] \<and> seen st g = {X})"
      and "name_value c = X"
  shows "map name_value (colors (addColorIfUnique g c st)) = [X] \<and>
         seen (addColorIfUnique g c st) g = {X}"
proof (cases "colors st = [] \<and> seen st g = {}")
  case True
  then show ?thesis using assms(2) by (simp add: addColorIfUnique_def)
next
  case False
  then have "map name_value (colors st) = [X] \<and> seen st g = {X}" using assms(1) by blast
  then show ?thesis using assms(2) by (simp add: addColorIfUnique_def)
qed

lemma settle_keeps [simp]:
  "colors (settle g st) = colors st" "seen (settle g st) = seen st"
  "cache (settle g st) = cache st" "fetched (settle g st) = fetched st"
  "root (settle g st) = root st" "cancelled (settle g st) = cancelled st"
  "runs (settle g st) = runs st"
  by (simp_all add: settle_def)

text \<open>The turn of a root, seen from its run.\<close>

lemma gen_inv_turn:
  assumes l: "root_shape X a b t" and r: "root_shape X a' b' u"
      and ab: "b \<noteq> b'"
      and f: "b \<in> {0, 179, 180, 359}"
      and n: "t = AwaitStart a b \<longrightarrow> b \<notin> set (fetched st g)"
      and n': "u = AwaitStart a' b' \<longrightarrow> b' \<notin> set (fetched st g)"
      and dn: "(t = Done \<or> u = Done) \<and> \<not> cancelled st g \<longrightarrow> map name_value (colors st) = [X]"
      and di: "distinct (fetched st g)" and su: "set (fetched st g) \<subseteq> {0, 179, 180, 359}"
      and q: "\<not> cancelled st g \<longrightarrow>
                (colors st = [] \<and> seen st g = {}) \<or>
                (map name_value (colors st) = [X] \<and> seen st g = {X})"
      and d: "name_value data = X"
      and ca: "\<forall>h c. cache st h = Some c \<longrightarrow> name_value c = X"
      and rs: "resolve g [] data t st = Some (t', s)"
  shows "root_shape X a b t' \<and>
         (t' = AwaitStart a b \<longrightarrow> b \<notin> set (fetched s g)) \<and>
         (u = AwaitStart a' b' \<longrightarrow> b' \<notin> set (fetched s g)) \<and>
         ((t' = Done \<or> u = Done) \<and> \<not> cancelled s g \<longrightarrow> map name_value (colors s) = [X]) \<and>
         distinct (fetched s g) \<and> set (fetched s g) \<subseteq> {0, 179, 180, 359} \<and>
         (\<not> cancelled s g \<longrightarrow>
            (colors s = [] \<and> seen s g = {}) \<or>
            (map name_value (colors s) = [X] \<and> seen s g = {X})) \<and>
         (\<forall>h c. cache s h = Some c \<longrightarrow> name_value c = X)"
proof -
  note t = root_turn[OF l d ca rs]
  note t1 = t[THEN conjunct1]
  note t2 = t[THEN conjunct2, THEN conjunct1]
  note t3 = t[THEN conjunct2, THEN conjunct2, THEN conjunct1]
  note fe = t[THEN conjunct2, THEN conjunct2, THEN conjunct2, THEN conjunct1]
  note t5 = t[THEN conjunct2, THEN conjunct2, THEN conjunct2, THEN conjunct2]
  have c: "cancelled s = cancelled st" by (rule resolve_keeps(3)[OF rs])
  have 1: "distinct (fetched s g) \<and> set (fetched s g) \<subseteq> {0, 179, 180, 359}"
    using fe n di su f by auto
  have 2: "u = AwaitStart a' b' \<longrightarrow> b' \<notin> set (fetched s g)"
    using fe n' ab by auto
  have 3: "((t' = Done \<or> u = Done) \<and> \<not> cancelled s g \<longrightarrow> map name_value (colors s) = [X]) \<and>
        (\<not> cancelled s g \<longrightarrow>
            (colors s = [] \<and> seen s g = {}) \<or>
            (map name_value (colors s) = [X] \<and> seen s g = {X}))"
  proof (cases "cancelled st g")
    case True
    then show ?thesis using c by simp
  next
    case False
    from t5 have "(t' \<noteq> Done \<and> colors s = colors st \<and> seen s g = seen st g) \<or>
          (\<exists>c. name_value c = X \<and> colors s = colors (addColorIfUnique g c st) \<and>
              seen s g = seen (addColorIfUnique g c st) g)"
      using False by blast
    then show ?thesis
    proof
      assume "t' \<noteq> Done \<and> colors s = colors st \<and> seen s g = seen st g"
      then show ?thesis using q dn c False by auto
    next
      assume "\<exists>c. name_value c = X \<and> colors s = colors (addColorIfUnique g c st) \<and>
              seen s g = seen (addColorIfUnique g c st) g"
      then obtain c' where c': "name_value c' = X"
        "colors s = colors (addColorIfUnique g c' st)"
        "seen s g = seen (addColorIfUnique g c' st) g" by blast
      from q False have "(colors st = [] \<and> seen st g = {}) \<or>
           (map name_value (colors st) = [X] \<and> seen st g = {X})" by simp
      from uniform_add[OF this c'(1)] c'(2,3) show ?thesis by simp
    qed
  qed
  have 0: "t' = AwaitStart a b \<longrightarrow> b \<notin> set (fetched s g)" using t2 by simp
  show ?thesis
    by (intro conjI) (rule t1, rule 0, rule 2, rule 3[THEN conjunct1], rule 1[THEN conjunct1],
        rule 1[THEN conjunct2], rule 3[THEN conjunct2], rule t3)
qed

text \<open>What holds of a run depends on the run's own variables, and on \<open>colors\<close> while it is not cancelled.\<close>

lemma gen_invI:
  assumes "root st g = Join l u" and "root_shape X 0 179 l" and "root_shape X 180 359 u"
      and "l = AwaitStart 0 179 \<longrightarrow> 179 \<notin> set (fetched st g)"
      and "u = AwaitStart 180 359 \<longrightarrow> 359 \<notin> set (fetched st g)"
      and "(l = Done \<or> u = Done) \<and> \<not> cancelled st g \<longrightarrow> map name_value (colors st) = [X]"
      and "distinct (fetched st g)" and "set (fetched st g) \<subseteq> {0, 179, 180, 359}"
      and "\<not> cancelled st g \<longrightarrow>
              (colors st = [] \<and> seen st g = {}) \<or>
              (map name_value (colors st) = [X] \<and> seen st g = {X})"
  shows "gen_inv X st g"
  unfolding gen_inv_def using assms by simp

lemma gen_invE:
  assumes "gen_inv X st g"
  obtains l u where "root st g = Join l u"
    and "root_shape X 0 179 l" and "root_shape X 180 359 u"
    and "l = AwaitStart 0 179 \<longrightarrow> 179 \<notin> set (fetched st g)"
    and "u = AwaitStart 180 359 \<longrightarrow> 359 \<notin> set (fetched st g)"
    and "(l = Done \<or> u = Done) \<and> \<not> cancelled st g \<longrightarrow> map name_value (colors st) = [X]"
    and "distinct (fetched st g)" and "set (fetched st g) \<subseteq> {0, 179, 180, 359}"
    and "\<not> cancelled st g \<longrightarrow>
              (colors st = [] \<and> seen st g = {}) \<or>
              (map name_value (colors st) = [X] \<and> seen st g = {X})"
  using assms unfolding gen_inv_def by (elim conjE exE) (rule that; assumption)

lemma gen_inv_cong:
  assumes "gen_inv X st g"
      and "root st' g = root st g" and "fetched st' g = fetched st g"
      and "cancelled st g \<longrightarrow> cancelled st' g"
      and "\<not> cancelled st' g \<longrightarrow> colors st' = colors st \<and> seen st' g = seen st g"
  shows "gen_inv X st' g"
proof -
  from assms(1) obtain l u where rt: "root st g = Join l u"
    and l: "root_shape X 0 179 l" and u: "root_shape X 180 359 u"
    and nl: "l = AwaitStart 0 179 \<longrightarrow> 179 \<notin> set (fetched st g)"
    and nu: "u = AwaitStart 180 359 \<longrightarrow> 359 \<notin> set (fetched st g)"
    and dn: "(l = Done \<or> u = Done) \<and> \<not> cancelled st g \<longrightarrow> map name_value (colors st) = [X]"
    and di: "distinct (fetched st g)" and su: "set (fetched st g) \<subseteq> {0, 179, 180, 359}"
    and q: "\<not> cancelled st g \<longrightarrow>
              (colors st = [] \<and> seen st g = {}) \<or>
              (map name_value (colors st) = [X] \<and> seen st g = {X})"
    by (rule gen_invE)
  have rt': "root st' g = Join l u" using rt assms(2) by simp
  show ?thesis
  proof (cases "cancelled st' g")
    case True
    show ?thesis
      by (rule gen_invI[OF rt' l u]) (use True nl nu di su assms(3) in simp_all)
  next
    case False
    then have e: "colors st' = colors st" "seen st' g = seen st g" "\<not> cancelled st g"
      using assms(4,5) by auto
    show ?thesis
      by (rule gen_invI[OF rt' l u]) (use False e nl nu dn di su q assms(3) in simp_all)
  qed
qed

lemma gen_inv_resolve_self:
  assumes gi: "gen_inv X st g"
      and ca: "\<forall>h c. cache st h = Some c \<longrightarrow> name_value c = X"
      and d: "name_value data = X"
      and r: "resolve g p data (root st g) st = Some (t, s)"
  shows "gen_inv X (settle g (s\<lparr>root := (root s)(g := t)\<rparr>)) g \<and>
         (\<forall>h c. cache s h = Some c \<longrightarrow> name_value c = X)"
proof -
  from gi obtain l u where rt: "root st g = Join l u"
    and l: "root_shape X 0 179 l" and u: "root_shape X 180 359 u"
    and nl: "l = AwaitStart 0 179 \<longrightarrow> 179 \<notin> set (fetched st g)"
    and nu: "u = AwaitStart 180 359 \<longrightarrow> 359 \<notin> set (fetched st g)"
    and dn: "(l = Done \<or> u = Done) \<and> \<not> cancelled st g \<longrightarrow> map name_value (colors st) = [X]"
    and di: "distinct (fetched st g)" and su: "set (fetched st g) \<subseteq> {0, 179, 180, 359}"
    and q: "\<not> cancelled st g \<longrightarrow>
              (colors st = [] \<and> seen st g = {}) \<or>
              (map name_value (colors st) = [X] \<and> seen st g = {X})"
    by (rule gen_invE)
  have dn': "(u = Done \<or> l = Done) \<and> \<not> cancelled st g \<longrightarrow> map name_value (colors st) = [X]"
    using dn by blast
  from r rt obtain x p' where p: "p = x # p'" by (cases p) auto
  show ?thesis
  proof (cases x)
    case First
    from r rt p First obtain l' where rl: "resolve g p' data l st = Some (l', s)"
      and t: "t = Join l' u" by (auto split: option.splits)
    have "p' = []" by (rule root_shape_leaf[OF l rl])
    then have rl': "resolve g [] data l st = Some (l', s)" using rl by simp
    have "(179::int) \<noteq> 359" "(179::int) \<in> {0, 179, 180, 359}" by simp_all
    note c = gen_inv_turn[OF l u this nl nu dn di su q d ca rl']
    note c1 = c[THEN conjunct1]
    note c2 = c[THEN conjunct2, THEN conjunct1]
    note c3 = c[THEN conjunct2, THEN conjunct2, THEN conjunct1]
    note c4 = c[THEN conjunct2, THEN conjunct2, THEN conjunct2, THEN conjunct1]
    note c5 = c[THEN conjunct2, THEN conjunct2, THEN conjunct2, THEN conjunct2, THEN conjunct1]
    note c6 = c[THEN conjunct2, THEN conjunct2, THEN conjunct2, THEN conjunct2, THEN conjunct2,
        THEN conjunct1]
    note c7 = c[THEN conjunct2, THEN conjunct2, THEN conjunct2, THEN conjunct2, THEN conjunct2,
        THEN conjunct2, THEN conjunct1]
    note c8 = c[THEN conjunct2, THEN conjunct2, THEN conjunct2, THEN conjunct2, THEN conjunct2,
        THEN conjunct2, THEN conjunct2]
    let ?st' = "settle g (s\<lparr>root := (root s)(g := Join l' u)\<rparr>)"
    have e: "root ?st' g = Join l' u" "fetched ?st' g = fetched s g" "colors ?st' = colors s"
      "seen ?st' g = seen s g" "cancelled ?st' g = cancelled s g" by simp_all
    have "gen_inv X ?st' g"
    proof (rule gen_invI[OF e(1) c1 u])
      show "l' = AwaitStart 0 179 \<longrightarrow> 179 \<notin> set (fetched ?st' g)"
        unfolding e by (rule c2)
      show "u = AwaitStart 180 359 \<longrightarrow> 359 \<notin> set (fetched ?st' g)"
        unfolding e by (rule c3)
      show "(l' = Done \<or> u = Done) \<and> \<not> cancelled ?st' g \<longrightarrow>
          map name_value (colors ?st') = [X]"
        unfolding e by (rule c4)
      show "distinct (fetched ?st' g)" unfolding e by (rule c5)
      show "set (fetched ?st' g) \<subseteq> {0, 179, 180, 359}" unfolding e by (rule c6)
      show "\<not> cancelled ?st' g \<longrightarrow>
          (colors ?st' = [] \<and> seen ?st' g = {}) \<or>
          (map name_value (colors ?st') = [X] \<and> seen ?st' g = {X})"
        unfolding e by (rule c7)
    qed
    then show ?thesis using c8 t by simp
  next
    case Second
    from r rt p Second obtain u' where ru: "resolve g p' data u st = Some (u', s)"
      and t: "t = Join l u'" by (auto split: option.splits)
    have "p' = []" by (rule root_shape_leaf[OF u ru])
    then have ru': "resolve g [] data u st = Some (u', s)" using ru by simp
    have "(359::int) \<noteq> 179" "(359::int) \<in> {0, 179, 180, 359}" by simp_all
    note c = gen_inv_turn[OF u l this nu nl dn' di su q d ca ru']
    note c1 = c[THEN conjunct1]
    note c2 = c[THEN conjunct2, THEN conjunct1]
    note c3 = c[THEN conjunct2, THEN conjunct2, THEN conjunct1]
    note c4 = c[THEN conjunct2, THEN conjunct2, THEN conjunct2, THEN conjunct1]
    note c5 = c[THEN conjunct2, THEN conjunct2, THEN conjunct2, THEN conjunct2, THEN conjunct1]
    note c6 = c[THEN conjunct2, THEN conjunct2, THEN conjunct2, THEN conjunct2, THEN conjunct2,
        THEN conjunct1]
    note c7 = c[THEN conjunct2, THEN conjunct2, THEN conjunct2, THEN conjunct2, THEN conjunct2,
        THEN conjunct2, THEN conjunct1]
    note c8 = c[THEN conjunct2, THEN conjunct2, THEN conjunct2, THEN conjunct2, THEN conjunct2,
        THEN conjunct2, THEN conjunct2]
    have c4': "(l = Done \<or> u' = Done) \<and> \<not> cancelled s g \<longrightarrow> map name_value (colors s) = [X]"
      using c4 by blast
    let ?st' = "settle g (s\<lparr>root := (root s)(g := Join l u')\<rparr>)"
    have e: "root ?st' g = Join l u'" "fetched ?st' g = fetched s g" "colors ?st' = colors s"
      "seen ?st' g = seen s g" "cancelled ?st' g = cancelled s g" by simp_all
    have "gen_inv X ?st' g"
    proof (rule gen_invI[OF e(1) l c1])
      show "l = AwaitStart 0 179 \<longrightarrow> 179 \<notin> set (fetched ?st' g)"
        unfolding e by (rule c3)
      show "u' = AwaitStart 180 359 \<longrightarrow> 359 \<notin> set (fetched ?st' g)"
        unfolding e by (rule c2)
      show "(l = Done \<or> u' = Done) \<and> \<not> cancelled ?st' g \<longrightarrow>
          map name_value (colors ?st') = [X]"
        unfolding e by (rule c4')
      show "distinct (fetched ?st' g)" unfolding e by (rule c5)
      show "set (fetched ?st' g) \<subseteq> {0, 179, 180, 359}" unfolding e by (rule c6)
      show "\<not> cancelled ?st' g \<longrightarrow>
          (colors ?st' = [] \<and> seen ?st' g = {}) \<or>
          (map name_value (colors ?st') = [X] \<and> seen ?st' g = {X})"
        unfolding e by (rule c7)
    qed
    then show ?thesis using c8 t by simp
  qed
qed

lemma gen_inv_reject_self:
  assumes gi: "gen_inv X st g" and r: "reject p (root st g) = Some t"
  shows "gen_inv X (st\<lparr>root := (root st)(g := t)\<rparr>) g"
proof -
  from gi obtain l u where rt: "root st g = Join l u"
    and l: "root_shape X 0 179 l" and u: "root_shape X 180 359 u"
    and nu: "u = AwaitStart 180 359 \<longrightarrow> 359 \<notin> set (fetched st g)"
    and nl: "l = AwaitStart 0 179 \<longrightarrow> 179 \<notin> set (fetched st g)"
    and dn: "(l = Done \<or> u = Done) \<and> \<not> cancelled st g \<longrightarrow> map name_value (colors st) = [X]"
    and rest: "distinct (fetched st g)" "set (fetched st g) \<subseteq> {0, 179, 180, 359}"
      "\<not> cancelled st g \<longrightarrow>
              (colors st = [] \<and> seen st g = {}) \<or>
              (map name_value (colors st) = [X] \<and> seen st g = {X})"
    by (rule gen_invE)
  from r rt obtain x p' where p: "p = x # p'" by (cases p) auto
  show ?thesis
  proof (cases x)
    case First
    from r rt p First obtain l' where rl: "reject p' l = Some l'" and t: "t = Join l' u"
      by (auto split: option.splits)
    from root_shape_leaf_reject[OF l rl] have f: "l' = Failed" "l \<noteq> Done" by simp_all
    let ?st' = "st\<lparr>root := (root st)(g := t)\<rparr>"
    have e: "root ?st' g = Join Failed u" "fetched ?st' g = fetched st g"
      "colors ?st' = colors st" "seen ?st' g = seen st g" "cancelled ?st' g = cancelled st g"
      using t f by simp_all
    have dn2: "(Failed = Done \<or> u = Done) \<and> \<not> cancelled st g \<longrightarrow>
        map name_value (colors st) = [X]" using dn by blast
    have nf: "Failed = AwaitStart 0 179 \<longrightarrow> 179 \<notin> set (fetched st g)" by simp
    show ?thesis
    proof (rule gen_invI[OF e(1) _ u])
      show "root_shape X 0 179 Failed" by simp
      show "Failed = AwaitStart 0 179 \<longrightarrow> 179 \<notin> set (fetched ?st' g)"
        unfolding e by (rule nf)
      show "u = AwaitStart 180 359 \<longrightarrow> 359 \<notin> set (fetched ?st' g)"
        unfolding e by (rule nu)
      show "(Failed = Done \<or> u = Done) \<and> \<not> cancelled ?st' g \<longrightarrow>
          map name_value (colors ?st') = [X]"
        unfolding e by (rule dn2)
      show "distinct (fetched ?st' g)" unfolding e by (rule rest(1))
      show "set (fetched ?st' g) \<subseteq> {0, 179, 180, 359}" unfolding e by (rule rest(2))
      show "\<not> cancelled ?st' g \<longrightarrow>
          (colors ?st' = [] \<and> seen ?st' g = {}) \<or>
          (map name_value (colors ?st') = [X] \<and> seen ?st' g = {X})"
        unfolding e by (rule rest(3))
    qed
  next
    case Second
    from r rt p Second obtain u' where ru: "reject p' u = Some u'" and t: "t = Join l u'"
      by (auto split: option.splits)
    from root_shape_leaf_reject[OF u ru] have f: "u' = Failed" "u \<noteq> Done" by simp_all
    let ?st' = "st\<lparr>root := (root st)(g := t)\<rparr>"
    have e: "root ?st' g = Join l Failed" "fetched ?st' g = fetched st g"
      "colors ?st' = colors st" "seen ?st' g = seen st g" "cancelled ?st' g = cancelled st g"
      using t f by simp_all
    have dn2: "(l = Done \<or> Failed = Done) \<and> \<not> cancelled st g \<longrightarrow>
        map name_value (colors st) = [X]" using dn by blast
    have nf: "Failed = AwaitStart 180 359 \<longrightarrow> 359 \<notin> set (fetched st g)" by simp
    show ?thesis
    proof (rule gen_invI[OF e(1) l])
      show "root_shape X 180 359 Failed" by simp
      show "l = AwaitStart 0 179 \<longrightarrow> 179 \<notin> set (fetched ?st' g)"
        unfolding e by (rule nl)
      show "Failed = AwaitStart 180 359 \<longrightarrow> 359 \<notin> set (fetched ?st' g)"
        unfolding e by (rule nf)
      show "(l = Done \<or> Failed = Done) \<and> \<not> cancelled ?st' g \<longrightarrow>
          map name_value (colors ?st') = [X]"
        unfolding e by (rule dn2)
      show "distinct (fetched ?st' g)" unfolding e by (rule rest(1))
      show "set (fetched ?st' g) \<subseteq> {0, 179, 180, 359}" unfolding e by (rule rest(2))
      show "\<not> cancelled ?st' g \<longrightarrow>
          (colors ?st' = [] \<and> seen ?st' g = {}) \<or>
          (map name_value (colors ?st') = [X] \<and> seen ?st' g = {X})"
        unfolding e by (rule rest(3))
    qed
  qed
qed

lemma gen_inv_effect:
  assumes "wf st" and "\<forall>g. g < runs st \<longrightarrow> gen_inv X st g" and "g < Suc (runs st)"
  shows "gen_inv X (effect s l st) g"
proof (cases "g = runs st")
  case True
  then show ?thesis by (simp add: gen_inv_def effect_unfold)
next
  case False
  then have g: "g < runs st" using assms(3) by simp
  have c: "cancelled (effect s l st) g"
    using assms(1) g False by (auto simp: effect_unfold wf_def)
  have "gen_inv X st g" using assms(2) g by simp
  then show ?thesis
    by (rule gen_inv_cong) (use c False in \<open>simp_all add: effect_unfold\<close>)
qed

lemma wf_active:
  assumes "wf st" and "Suc g = runs st"
  shows "\<not> cancelled st g"
proof -
  have "runs st - 1 = g" "0 < runs st" using assms(2) by simp_all
  moreover from assms(1) have "0 < runs st \<longrightarrow> \<not> cancelled st (runs st - 1)"
    by (simp add: wf_def)
  ultimately show ?thesis by simp
qed

lemma wf_stale:
  assumes "wf st" and "g < runs st" and "\<not> cancelled st g"
  shows "Suc g = runs st"
proof -
  from assms(1) have "Suc g < runs st \<longrightarrow> cancelled st g" by (simp add: wf_def)
  then have "\<not> Suc g < runs st" using assms(3) by blast
  then show ?thesis using assms(2) by simp
qed

lemma uniform_inv_app0: "uniform_inv X app0"
  by (simp add: uniform_inv_def wf_app0) (simp add: app0_def)

lemma uniform_inv_step:
  assumes inv: "uniform_inv X st" and un: "uniform X ev" and st: "step ev st = Some st'"
  shows "uniform_inv X st'"
proof -
  from inv have wf: "wf st"
    and ca: "\<forall>h c. cache st h = Some c \<longrightarrow> name_value c = X"
    and gi: "\<And>g. g < runs st \<Longrightarrow> gen_inv X st g"
    by (simp_all add: uniform_inv_def)
  have wf': "wf st'" by (rule wf_step[OF wf st])
  have one: "\<And>g g'. g < runs st \<Longrightarrow> g' < runs st \<Longrightarrow> g \<noteq> g' \<Longrightarrow>
               \<not> cancelled st g' \<Longrightarrow> cancelled st g"
  proof -
    fix g g' assume a: "g < runs st" "g' < runs st" "g \<noteq> g'" "\<not> cancelled st g'"
    from wf a(2,4) have "Suc g' = runs st" by (rule wf_stale)
    with a(1,3) have "Suc g < runs st" by simp
    with wf show "cancelled st g" by (simp add: wf_def)
  qed
  show ?thesis
  proof (cases ev)
    case (Effect s l)
    then have e: "st' = effect s l st" using st by simp
    have "\<forall>h c. cache st' h = Some c \<longrightarrow> name_value c = X" by (simp add: e effect_unfold)
    moreover have "\<forall>g. g < runs st' \<longrightarrow> gen_inv X st' g"
      using gen_inv_effect[OF wf, of X _ s l] gi by (simp add: e effect_unfold)
    ultimately show ?thesis using wf' by (simp add: uniform_inv_def)
  next
    case (Resolve g p data)
    from st[unfolded Resolve] obtain t s where
      g: "g < runs st" and r: "resolve g p data (root st g) st = Some (t, s)"
      and st': "st' = settle g (s\<lparr>root := (root s)(g := t)\<rparr>)"
      by (rule step_Resolve_cases)
    have d: "name_value data = X" using un Resolve by simp
    note k = resolve_keeps[OF r]
    note self = gen_inv_resolve_self[OF gi[OF g] ca d r]
    have ca': "\<forall>h c. cache st' h = Some c \<longrightarrow> name_value c = X"
      using self st' by simp
    have "\<And>g'. g' < runs st' \<Longrightarrow> gen_inv X st' g'"
    proof -
      fix g' assume "g' < runs st'"
      then have g': "g' < runs st" using st' k(2) by simp
      show "gen_inv X st' g'"
      proof (cases "g' = g")
        case True
        then show ?thesis using self st' by simp
      next
        case False
        have "\<not> cancelled st g' \<longrightarrow> colors s = colors st \<and> seen s = seen st"
          using one[OF g g'] False resolve_cancelled[OF r] by blast
        then show ?thesis
          by (intro gen_inv_cong[OF gi[OF g']]) (use False k st' in simp_all)
      qed
    qed
    then show ?thesis using wf' ca' by (simp add: uniform_inv_def)
  next
    case (Reject g p)
    from st[unfolded Reject] obtain t where
      g: "g < runs st" and r: "reject p (root st g) = Some t"
      and st': "st' = st\<lparr>root := (root st)(g := t)\<rparr>"
      by (rule step_Reject_cases)
    have "\<And>g'. g' < runs st' \<Longrightarrow> gen_inv X st' g'"
    proof -
      fix g' assume "g' < runs st'"
      then have g': "g' < runs st" using st' by simp
      show "gen_inv X st' g'"
      proof (cases "g' = g")
        case True
        then show ?thesis using gen_inv_reject_self[OF gi[OF g] r] st' by simp
      next
        case False
        show ?thesis
          by (intro gen_inv_cong[OF gi[OF g']]) (use False st' in simp_all)
      qed
    qed
    then show ?thesis using wf' ca st' by (simp add: uniform_inv_def)
  qed
qed

lemma uniform_inv_run:
  "uniform_inv X st \<Longrightarrow> \<forall>ev \<in> set evs. uniform X ev \<Longrightarrow> run evs st = Some st' \<Longrightarrow>
     uniform_inv X st'"
proof (induction evs arbitrary: st)
  case Nil
  then show ?case by simp
next
  case (Cons ev evs)
  from Cons.prems(3) obtain s where s: "step ev st = Some s" and r: "run evs s = Some st'"
    by (auto split: option.splits)
  have "uniform_inv X s" using uniform_inv_step[OF Cons.prems(1) _ s] Cons.prems(2) by simp
  then show ?case using Cons.IH[of s] Cons.prems(2) r by simp
qed

lemma four_points:
  assumes "distinct xs" and "set xs \<subseteq> {0, 179, 180, 359::int}"
  shows "length xs \<le> 4"
proof -
  have "card (set xs) \<le> card {0, 179, 180, 359::int}"
    by (rule card_mono) (use assms(2) in simp_all)
  then show ?thesis using distinct_card[OF assms(1)] by simp
qed

text \<open>
  C6. Whatever the order in which the fetches settle, and however many runs there
  have been: if every answer of the sampler has the same name, a run calls
  \<open>fetchColor\<close> at most four times, and only for the end points \<open>0\<close>, \<open>mid\<close>,
  \<open>mid + 1\<close> and \<open>359\<close> of its two root searches, \<open>mid\<close> being \<open>Math.floor(359 / 2)\<close>;
  and when the root of the last run has fulfilled, \<open>colors\<close> holds exactly one colour,
  of that name.
\<close>

theorem uniform_domain_four_calls:
  assumes "run evs app0 = Some st"
      and "\<forall>ev \<in> set evs. uniform X ev"
      and "g < runs st"
  shows "length (fetched st g) \<le> 4 \<and>
         set (fetched st g) \<subseteq> {0, mid_point 0 359, mid_point 0 359 + 1, 359} \<and>
         (Suc g = runs st \<and> status (root st g) = Fulfilled \<longrightarrow>
            length (colors st) = 1 \<and> map name_value (colors st) = [X])"
proof -
  have inv: "uniform_inv X st"
    by (rule uniform_inv_run[OF uniform_inv_app0 assms(2,1)])
  then have wf: "wf st" and gi: "gen_inv X st g"
    using assms(3) by (simp_all add: uniform_inv_def)
  from gi obtain l u where rt: "root st g = Join l u"
    and l: "root_shape X 0 179 l" and u: "root_shape X 180 359 u"
    and nl: "l = AwaitStart 0 179 \<longrightarrow> 179 \<notin> set (fetched st g)"
    and nu: "u = AwaitStart 180 359 \<longrightarrow> 359 \<notin> set (fetched st g)"
    and dn: "(l = Done \<or> u = Done) \<and> \<not> cancelled st g \<longrightarrow> map name_value (colors st) = [X]"
    and di: "distinct (fetched st g)" and su: "set (fetched st g) \<subseteq> {0, 179, 180, 359}"
    and q: "\<not> cancelled st g \<longrightarrow>
              (colors st = [] \<and> seen st g = {}) \<or>
              (map name_value (colors st) = [X] \<and> seen st g = {X})"
    by (rule gen_invE)
  have 1: "length (fetched st g) \<le> 4" by (rule four_points[OF di su])
  have 2: "set (fetched st g) \<subseteq> {0, mid_point 0 359, mid_point 0 359 + 1, 359}"
    using su by (simp add: mid_point_safe)
  have 3: "Suc g = runs st \<and> status (root st g) = Fulfilled \<longrightarrow>
            length (colors st) = 1 \<and> map name_value (colors st) = [X]"
  proof
    assume a: "Suc g = runs st \<and> status (root st g) = Fulfilled"
    then have nc: "\<not> cancelled st g" using wf_active[OF wf] by blast
    from a rt have "status l = Fulfilled" by (auto split: if_splits)
    then have "l = Done" using l by (cases l) auto
    then have n: "map name_value (colors st) = [X]" using dn nc by simp
    have "length (map name_value (colors st)) = 1" unfolding n by simp
    then have "length (colors st) = 1" by (simp only: length_map)
    then show "length (colors st) = 1 \<and> map name_value (colors st) = [X]" using n by blast
  qed
  show ?thesis using 1 2 3 by blast
qed

theorem uniform_domain_four_calls_witness:
  "run [Effect 50 50, Resolve 0 [First] (sample ''Red'' 0), Resolve 0 [Second] (sample ''Red'' 180),
        Resolve 0 [First] (sample ''Red'' 179), Resolve 0 [Second] (sample ''Red'' 359)] app0
     \<noteq> None \<and>
   runs (the (run [Effect 50 50, Resolve 0 [First] (sample ''Red'' 0),
        Resolve 0 [Second] (sample ''Red'' 180), Resolve 0 [First] (sample ''Red'' 179),
        Resolve 0 [Second] (sample ''Red'' 359)] app0)) = Suc 0 \<and>
   status (root (the (run [Effect 50 50, Resolve 0 [First] (sample ''Red'' 0),
        Resolve 0 [Second] (sample ''Red'' 180), Resolve 0 [First] (sample ''Red'' 179),
        Resolve 0 [Second] (sample ''Red'' 359)] app0)) 0) = Fulfilled \<and>
   fetched (the (run [Effect 50 50, Resolve 0 [First] (sample ''Red'' 0),
        Resolve 0 [Second] (sample ''Red'' 180), Resolve 0 [First] (sample ''Red'' 179),
        Resolve 0 [Second] (sample ''Red'' 359)] app0)) 0 = [0, 180, 179, 359] \<and>
   length (colors (the (run [Effect 50 50, Resolve 0 [First] (sample ''Red'' 0),
        Resolve 0 [Second] (sample ''Red'' 180), Resolve 0 [First] (sample ''Red'' 179),
        Resolve 0 [Second] (sample ''Red'' 359)] app0))) = 1 \<and>
   map name_value (colors (the (run [Effect 50 50, Resolve 0 [First] (sample ''Red'' 0),
        Resolve 0 [Second] (sample ''Red'' 180), Resolve 0 [First] (sample ''Red'' 179),
        Resolve 0 [Second] (sample ''Red'' 359)] app0))) = [''Red'']"
proof -
  let ?evs = "[Effect 50 50, Resolve 0 [First] (sample ''Red'' 0),
        Resolve 0 [Second] (sample ''Red'' 180), Resolve 0 [First] (sample ''Red'' 179),
        Resolve 0 [Second] (sample ''Red'' 359)]"
  let ?st = "the (run ?evs app0)"
  have n: "run ?evs app0 \<noteq> None" by (simp add: run_simps)
  have h1: "run ?evs app0 = Some ?st" by (rule option.collapse[OF n, symmetric])
  have h2: "\<forall>ev \<in> set ?evs. uniform ''Red'' ev" by (simp add: sample_def)
  have r: "runs ?st = Suc 0" by (simp add: run_simps)
  have h3: "0 < runs ?st" unfolding r by simp
  have f: "status (root ?st 0) = Fulfilled" by (simp add: run_simps)
  have fe: "fetched ?st 0 = [0, 180, 179, 359]" by (simp add: run_simps)
  note c = uniform_domain_four_calls[OF h1 h2 h3]
  have "Suc 0 = runs ?st \<and> status (root ?st 0) = Fulfilled" using r f by simp
  with c have "length (colors ?st) = 1 \<and> map name_value (colors ?st) = [''Red'']" by blast
  then show ?thesis using n r f fe by blast
qed

section \<open>Debounced inputs\<close>

lemma runs_effect [simp]: "runs (effect s l st) = Suc (runs st)"
  by (simp add: effect_unfold)

text \<open>
  During a burst of changes of the saturation: no timeout of the lightness is set,
  the timeout of the saturation is set for the saturation of the moment and fires at
  \<open>d\<close>.
\<close>

lemma saturation_burst_pending:
  assumes "handler (lightnessDebounce h) = None"
      and "handler (saturationDebounce h) = Some (d, saturation h)"
      and "changing (saturation h) tvs" and "spaced 200 tvs"
      and "tvs \<noteq> [] \<longrightarrow> fst (hd tvs) < d"
  shows "runs (app_state (quiesce (run_inputs (saturation_burst tvs) h))) =
           runs (app_state h) +
           (if (if tvs = [] then saturation h else snd (last tvs)) = debouncedSaturation h
            then 0 else 1)"
  using assms
proof (induction tvs arbitrary: h d)
  case Nil
  then show ?case
    by (simp add: quiesce_def advance_def due_def fireSaturation_def Let_def
        useDebounce_timeout_def debouncedSaturation_def)
next
  case (Cons tv tvs)
  obtain t v where tv: "tv = (t, v)" by (cases tv)
  have t: "t < d" using Cons.prems(5) tv by simp
  have v: "v \<noteq> saturation h" using Cons.prems(3) tv by simp
  have a: "advance t h = h" using Cons.prems(1,2) t by (simp add: advance_def due_def)
  let ?h = "setSaturation t v h"
  have h1: "handler (lightnessDebounce ?h) = None"
    using Cons.prems(1) by (simp add: setSaturation_def)
  have h2: "handler (saturationDebounce ?h) = Some (t + 200, saturation ?h)"
    using v by (simp add: setSaturation_def useDebounce_effect_def)
  have h3: "changing (saturation ?h) tvs"
    using Cons.prems(3) tv v by (simp add: setSaturation_def)
  have h4: "spaced 200 tvs" using Cons.prems(4) tv by (cases tvs) auto
  have h5: "tvs \<noteq> [] \<longrightarrow> fst (hd tvs) < t + 200"
    using Cons.prems(4) tv by (cases tvs) auto
  have e: "app_state ?h = app_state h" "debouncedSaturation ?h = debouncedSaturation h"
    "saturation ?h = v"
    using v by (simp_all add: setSaturation_def useDebounce_effect_def debouncedSaturation_def)
  have "runs (app_state (quiesce (run_inputs (saturation_burst tvs) ?h))) =
           runs (app_state ?h) +
           (if (if tvs = [] then saturation ?h else snd (last tvs)) = debouncedSaturation ?h
            then 0 else 1)"
    by (rule Cons.IH[OF h1 h2 h3 h4 h5])
  then show ?case using a tv e by simp
qed

lemma lightness_burst_pending:
  assumes "handler (saturationDebounce h) = None"
      and "handler (lightnessDebounce h) = Some (d, lightness h)"
      and "changing (lightness h) tvs" and "spaced 200 tvs"
      and "tvs \<noteq> [] \<longrightarrow> fst (hd tvs) < d"
  shows "runs (app_state (quiesce (run_inputs (lightness_burst tvs) h))) =
           runs (app_state h) +
           (if (if tvs = [] then lightness h else snd (last tvs)) = debouncedLightness h
            then 0 else 1)"
  using assms
proof (induction tvs arbitrary: h d)
  case Nil
  then show ?case
    by (simp add: quiesce_def advance_def due_def fireLightness_def Let_def
        useDebounce_timeout_def debouncedLightness_def)
next
  case (Cons tv tvs)
  obtain t v where tv: "tv = (t, v)" by (cases tv)
  have t: "t < d" using Cons.prems(5) tv by simp
  have v: "v \<noteq> lightness h" using Cons.prems(3) tv by simp
  have a: "advance t h = h" using Cons.prems(1,2) t by (simp add: advance_def due_def)
  let ?h = "setLightness t v h"
  have h1: "handler (saturationDebounce ?h) = None"
    using Cons.prems(1) by (simp add: setLightness_def)
  have h2: "handler (lightnessDebounce ?h) = Some (t + 200, lightness ?h)"
    using v by (simp add: setLightness_def useDebounce_effect_def)
  have h3: "changing (lightness ?h) tvs"
    using Cons.prems(3) tv v by (simp add: setLightness_def)
  have h4: "spaced 200 tvs" using Cons.prems(4) tv by (cases tvs) auto
  have h5: "tvs \<noteq> [] \<longrightarrow> fst (hd tvs) < t + 200"
    using Cons.prems(4) tv by (cases tvs) auto
  have e: "app_state ?h = app_state h" "debouncedLightness ?h = debouncedLightness h"
    "lightness ?h = v"
    using v by (simp_all add: setLightness_def useDebounce_effect_def debouncedLightness_def)
  have "runs (app_state (quiesce (run_inputs (lightness_burst tvs) ?h))) =
           runs (app_state ?h) +
           (if (if tvs = [] then lightness ?h else snd (last tvs)) = debouncedLightness ?h
            then 0 else 1)"
    by (rule Cons.IH[OF h1 h2 h3 h4 h5])
  then show ?case using a tv e by simp
qed

lemma saturation_burst_idle:
  assumes "idle h" and "tvs \<noteq> []" and "changing (saturation h) tvs" and "spaced 200 tvs"
  shows "runs (app_state (quiesce (run_inputs (saturation_burst tvs) h))) =
           runs (app_state h) + (if snd (last tvs) = saturation h then 0 else 1)"
proof -
  obtain t v tvs' where tvs: "tvs = (t, v) # tvs'" using assms(2) by (cases tvs) auto
  have v: "v \<noteq> saturation h" using assms(3) tvs by simp
  have a: "advance t h = h" using assms(1) by (simp add: idle_def advance_def due_def)
  let ?h = "setSaturation t v h"
  have h1: "handler (lightnessDebounce ?h) = None"
    using assms(1) by (simp add: idle_def setSaturation_def)
  have h2: "handler (saturationDebounce ?h) = Some (t + 200, saturation ?h)"
    using v by (simp add: setSaturation_def useDebounce_effect_def)
  have h3: "changing (saturation ?h) tvs'"
    using assms(3) tvs v by (simp add: setSaturation_def)
  have h4: "spaced 200 tvs'" using assms(4) tvs by (cases tvs') auto
  have h5: "tvs' \<noteq> [] \<longrightarrow> fst (hd tvs') < t + 200"
    using assms(4) tvs by (cases tvs') auto
  have e: "app_state ?h = app_state h" "debouncedSaturation ?h = saturation h"
    "saturation ?h = v"
    using v assms(1)
    by (simp_all add: idle_def setSaturation_def useDebounce_effect_def debouncedSaturation_def)
  from saturation_burst_pending[OF h1 h2 h3 h4 h5] show ?thesis
    using a tvs e by simp
qed

lemma lightness_burst_idle:
  assumes "idle h" and "tvs \<noteq> []" and "changing (lightness h) tvs" and "spaced 200 tvs"
  shows "runs (app_state (quiesce (run_inputs (lightness_burst tvs) h))) =
           runs (app_state h) + (if snd (last tvs) = lightness h then 0 else 1)"
proof -
  obtain t v tvs' where tvs: "tvs = (t, v) # tvs'" using assms(2) by (cases tvs) auto
  have v: "v \<noteq> lightness h" using assms(3) tvs by simp
  have a: "advance t h = h" using assms(1) by (simp add: idle_def advance_def due_def)
  let ?h = "setLightness t v h"
  have h1: "handler (saturationDebounce ?h) = None"
    using assms(1) by (simp add: idle_def setLightness_def)
  have h2: "handler (lightnessDebounce ?h) = Some (t + 200, lightness ?h)"
    using v by (simp add: setLightness_def useDebounce_effect_def)
  have h3: "changing (lightness ?h) tvs'"
    using assms(3) tvs v by (simp add: setLightness_def)
  have h4: "spaced 200 tvs'" using assms(4) tvs by (cases tvs') auto
  have h5: "tvs' \<noteq> [] \<longrightarrow> fst (hd tvs') < t + 200"
    using assms(4) tvs by (cases tvs') auto
  have e: "app_state ?h = app_state h" "debouncedLightness ?h = lightness h"
    "lightness ?h = v"
    using v assms(1)
    by (simp_all add: idle_def setLightness_def useDebounce_effect_def debouncedLightness_def)
  from lightness_burst_pending[OF h1 h2 h3 h4 h5] show ?thesis
    using a tvs e by simp
qed

text \<open>
  C9, as the code has it. The hook debounces each of the two inputs on its own, with
  a delay of 200 ms. A change of an input clears the timeout pending for that input
  and sets a new one, leaves the other input's timeout as it is, and starts no run
  of the effect. So a burst of changes of one input, each less than 200 ms after the
  one before, starts one run when it ends on a value that differs from the debounced
  one, and none when it ends on that value.
\<close>

theorem debounce_one_scalar:
  "(v \<noteq> saturation h \<longrightarrow>
      handler (saturationDebounce (setSaturation now v h)) = Some (now + 200, v) \<and>
      lightnessDebounce (setSaturation now v h) = lightnessDebounce h \<and>
      debouncedSaturation (setSaturation now v h) = debouncedSaturation h \<and>
      app_state (setSaturation now v h) = app_state h) \<and>
   (v \<noteq> lightness h \<longrightarrow>
      handler (lightnessDebounce (setLightness now v h)) = Some (now + 200, v) \<and>
      saturationDebounce (setLightness now v h) = saturationDebounce h \<and>
      debouncedLightness (setLightness now v h) = debouncedLightness h \<and>
      app_state (setLightness now v h) = app_state h) \<and>
   (idle h \<and> tvs \<noteq> [] \<and> changing (saturation h) tvs \<and> spaced 200 tvs \<longrightarrow>
      runs (app_state (quiesce (run_inputs (saturation_burst tvs) h))) =
        runs (app_state h) + (if snd (last tvs) = saturation h then 0 else 1)) \<and>
   (idle h \<and> tvs \<noteq> [] \<and> changing (lightness h) tvs \<and> spaced 200 tvs \<longrightarrow>
      runs (app_state (quiesce (run_inputs (lightness_burst tvs) h))) =
        runs (app_state h) + (if snd (last tvs) = lightness h then 0 else 1))"
proof (intro conjI impI)
  assume "idle h \<and> tvs \<noteq> [] \<and> changing (saturation h) tvs \<and> spaced 200 tvs"
  then show "runs (app_state (quiesce (run_inputs (saturation_burst tvs) h))) =
        runs (app_state h) + (if snd (last tvs) = saturation h then 0 else 1)"
    using saturation_burst_idle[of h tvs] by blast
next
  assume "idle h \<and> tvs \<noteq> [] \<and> changing (lightness h) tvs \<and> spaced 200 tvs"
  then show "runs (app_state (quiesce (run_inputs (lightness_burst tvs) h))) =
        runs (app_state h) + (if snd (last tvs) = lightness h then 0 else 1)"
    using lightness_burst_idle[of h tvs] by blast
qed (simp_all add: setSaturation_def setLightness_def useDebounce_effect_def
      debouncedSaturation_def debouncedLightness_def)

lemmas hook_simps =
  quiesce_def mount_def advance_def due_def fireSaturation_def fireLightness_def
  setSaturation_def setLightness_def useDebounce_effect_def useDebounce_timeout_def
  debouncedSaturation_def debouncedLightness_def idle_def Let_def

theorem debounce_one_scalar_witness:
  "idle (quiesce mount) \<and>
   changing (saturation (quiesce mount))
     [(1000, 51), (1010, 52), (1020, 53), (1030, 54), (1040, 55)] \<and>
   spaced 200 [(1000, 51), (1010, 52), (1020, 53), (1030, 54), (1040, 55)] \<and>
   runs (app_state (quiesce (run_inputs
     (saturation_burst [(1000, 51), (1010, 52), (1020, 53), (1030, 54), (1040, 55)])
     (quiesce mount)))) = runs (app_state (quiesce mount)) + 1 \<and>
   handler (saturationDebounce (setSaturation 1000 51 (quiesce mount))) = Some (1200, 51) \<and>
   app_state (setSaturation 1000 51 (quiesce mount)) = app_state (quiesce mount)"
proof -
  let ?tvs = "[(1000, 51), (1010, 52), (1020, 53), (1030, 54), (1040, 55)] :: (nat \<times> int) list"
  have i: "idle (quiesce mount)" by (simp add: hook_simps)
  have s: "saturation (quiesce mount) = 50" by (simp add: hook_simps)
  have c: "changing (saturation (quiesce mount)) ?tvs" unfolding s by simp
  have sp: "spaced 200 ?tvs" by simp
  note t = debounce_one_scalar[of 51 "quiesce mount" 1000 ?tvs]
  have "runs (app_state (quiesce (run_inputs (saturation_burst ?tvs) (quiesce mount)))) =
        runs (app_state (quiesce mount)) + (if snd (last ?tvs) = saturation (quiesce mount) then 0 else 1)"
    using t i c sp by blast
  then have r: "runs (app_state (quiesce (run_inputs (saturation_burst ?tvs) (quiesce mount)))) =
        runs (app_state (quiesce mount)) + 1" unfolding s by simp
  have "(51::int) \<noteq> saturation (quiesce mount)" unfolding s by simp
  with t have "handler (saturationDebounce (setSaturation 1000 51 (quiesce mount)))
        = Some (1000 + 200, 51) \<and>
      app_state (setSaturation 1000 51 (quiesce mount)) = app_state (quiesce mount)" by blast
  then have h: "handler (saturationDebounce (setSaturation 1000 51 (quiesce mount)))
        = Some (1200, 51)"
    "app_state (setSaturation 1000 51 (quiesce mount)) = app_state (quiesce mount)"
    by simp_all
  show ?thesis using i c sp r h by blast
qed

text \<open>
  The claim as the specification words it fails. A change of the lightness and, 40 ms
  later, a change of the saturation are a burst of two updates of the context; the
  second does not clear the timeout of the first, which fires at 1200 and starts a run,
  before the timeout of the second fires at 1240 and starts another. And a burst that
  ends on the debounced value starts no run at all.
\<close>

theorem debounce_two_scalars_counterexample:
  "idle (quiesce mount) \<and>
   handler (lightnessDebounce
     (run_inputs [(1000, SetLightness 60), (1040, SetSaturation 70)] (quiesce mount)))
     = Some (1200, 60) \<and>
   handler (saturationDebounce
     (run_inputs [(1000, SetLightness 60), (1040, SetSaturation 70)] (quiesce mount)))
     = Some (1240, 70) \<and>
   runs (app_state (quiesce
     (run_inputs [(1000, SetLightness 60), (1040, SetSaturation 70)] (quiesce mount))))
     = runs (app_state (quiesce mount)) + 2 \<and>
   runs (app_state (quiesce
     (run_inputs [(1000, SetSaturation 60), (1040, SetSaturation 50)] (quiesce mount))))
     = runs (app_state (quiesce mount))"
  by (simp add: hook_simps)

section \<open>The aggregator in a run of the hook\<close>

lemma unique_names_findIntervals:
  assumes "unique_names g st"
  shows "unique_names g (snd (findIntervals_gotStart g start en c st))"
    and "unique_names g (snd (findIntervals_gotEnd g start en c d st))"
proof -
  have f: "\<And>s h. unique_names g s \<Longrightarrow> unique_names g (fetchColor g h s)"
    by (simp add: unique_names_def)
  have a: "\<And>s c. unique_names g s \<Longrightarrow> \<not> cancelled s g \<Longrightarrow>
             unique_names g (addColorIfUnique g c s)"
    using addColorIfUnique_names by (simp add: unique_names_def)
  show "unique_names g (snd (findIntervals_gotStart g start en c st))"
    by (rule findIntervals_preserves(2)[where P = "unique_names g", OF f a assms])
  show "unique_names g (snd (findIntervals_gotEnd g start en c d st))"
    by (rule findIntervals_preserves(3)[where P = "unique_names g", OF f a assms])
qed

lemma unique_names_resolve:
  "resolve g p data t st = Some (t', s) \<Longrightarrow> unique_names g st \<Longrightarrow> unique_names g s"
proof (induction g p data t st arbitrary: t' s rule: resolve.induct)
  case (1 g data start en st)
  have "unique_names g (getColor_resume start data st)"
    using 1(2) by (simp add: unique_names_def getColor_resume_def)
  from unique_names_findIntervals(1)[OF this, of start en data] 1(1) show ?case by auto
next
  case (2 g data start en colorStart st)
  have "unique_names g (getColor_resume en data st)"
    using 2(2) by (simp add: unique_names_def getColor_resume_def)
  from unique_names_findIntervals(2)[OF this, of start en colorStart data] 2(1)
  show ?case by auto
next
  case (3 g p data l r st)
  then show ?case by (auto split: option.splits)
next
  case (4 g p data l r st)
  then show ?case by (auto split: option.splits)
qed simp_all

lemma unique_names_step:
  assumes wf: "wf st" and u: "0 < runs st \<longrightarrow> unique_names (runs st - 1) st"
      and st: "step ev st = Some st'"
  shows "0 < runs st' \<longrightarrow> unique_names (runs st' - 1) st'"
proof (cases ev)
  case (Effect s l)
  then show ?thesis using st by (auto simp: effect_unfold unique_names_def)
next
  case (Resolve g p data)
  from st[unfolded Resolve] obtain t s where
    g: "g < runs st" and r: "resolve g p data (root st g) st = Some (t, s)"
    and st': "st' = settle g (s\<lparr>root := (root s)(g := t)\<rparr>)"
    by (rule step_Resolve_cases)
  note k = resolve_keeps[OF r]
  have un: "unique_names (runs st - 1) st" using u g by simp
  show ?thesis
  proof (cases "Suc g = runs st")
    case True
    then have e: "runs st - 1 = g" by simp
    then have "unique_names g s" using unique_names_resolve[OF r] un by simp
    then have "unique_names g st'" using st' by (simp add: unique_names_def)
    moreover have "runs st' - 1 = g" using st' k(2) e by simp
    ultimately show ?thesis by simp
  next
    case False
    then have "cancelled st g" using wf_stale[OF wf g] by blast
    from resolve_cancelled[OF r this] un
    have "unique_names (runs st - 1) st'" using st' by (simp add: unique_names_def)
    moreover have "runs st' = runs st" using st' k(2) by simp
    ultimately show ?thesis by simp
  qed
next
  case (Reject g p)
  from st[unfolded Reject] obtain t where
    "st' = st\<lparr>root := (root st)(g := t)\<rparr>" by (rule step_Reject_cases)
  then show ?thesis using u by (simp add: unique_names_def)
qed

lemma unique_names_run:
  "wf st \<Longrightarrow> 0 < runs st \<longrightarrow> unique_names (runs st - 1) st \<Longrightarrow> run evs st = Some st' \<Longrightarrow>
     0 < runs st' \<longrightarrow> unique_names (runs st' - 1) st'"
proof (induction evs arbitrary: st)
  case Nil
  then show ?case by simp
next
  case (Cons ev evs)
  from Cons.prems(3) obtain s where s: "step ev st = Some s" and r: "run evs s = Some st'"
    by (auto split: option.splits)
  show ?case
    by (rule Cons.IH[OF wf_step[OF Cons.prems(1) s]
          unique_names_step[OF Cons.prems(1,2) s] r])
qed

lemma run_no_runs:
  "run evs st = Some st' \<Longrightarrow> runs st' = 0 \<Longrightarrow> colors st' = colors st"
proof (induction evs arbitrary: st)
  case Nil
  then show ?case by simp
next
  case (Cons ev evs)
  from Cons.prems(1) obtain s where s: "step ev st = Some s" and r: "run evs s = Some st'"
    by (auto split: option.splits)
  have m: "runs s \<le> runs st'" using r
  proof (induction evs arbitrary: s)
    case Nil
    then show ?case by simp
  next
    case (Cons e es)
    from Cons.prems obtain s' where s': "step e s = Some s'" and r': "run es s' = Some st'"
      by (auto split: option.splits)
    have "runs s \<le> runs s'" using s'
      by (cases e) (auto simp: settle_def split: if_splits option.splits dest: resolve_keeps(2))
    then show ?case using Cons.IH[OF r'] by simp
  qed
  have "runs s = 0" using m Cons.prems(2) by simp
  moreover have "runs st \<le> runs s" using s
    by (cases ev) (auto simp: settle_def split: if_splits option.splits dest: resolve_keeps(2))
  ultimately have "runs st = 0" by simp
  then have "step ev st = None \<or> (\<exists>a b. ev = Effect a b)" by (cases ev) auto
  then show ?case using s \<open>runs s = 0\<close> by auto
qed

lemma colors_distinct_run:
  assumes "run evs app0 = Some st"
  shows "distinct (map name_value (colors st))"
proof (cases "0 < runs st")
  case True
  have "0 < runs st \<longrightarrow> unique_names (runs st - 1) st"
    by (rule unique_names_run[OF wf_app0 _ assms]) (simp add: app0_def)
  then show ?thesis using True by (simp add: unique_names_def)
next
  case False
  then have "colors st = colors app0" using run_no_runs[OF assms] by simp
  then show ?thesis by (simp add: app0_def)
qed

text \<open>
  C8. \<open>addColorIfUnique\<close> does nothing for a colour whose name the run has seen,
  so doing it twice is doing it once; from the state the effect starts a run in
  (no colour), whatever colours are added in whatever order, no two entries of
  \<open>colors\<close> have the same name; and this holds of \<open>colors\<close> in every state the hook
  can reach, whatever the fetches of whatever runs do and in whatever order.
\<close>

theorem addColorIfUnique_idempotent:
  "(name_value c \<in> seen st g \<longrightarrow> addColorIfUnique g c st = st) \<and>
   addColorIfUnique g c (addColorIfUnique g c st) = addColorIfUnique g c st \<and>
   (colors st = [] \<longrightarrow>
      distinct (map name_value (colors (foldl (\<lambda>s c. addColorIfUnique g c s) st cs)))) \<and>
   (run evs app0 = Some st' \<longrightarrow> distinct (map name_value (colors st')))"
proof (intro conjI impI)
  assume "name_value c \<in> seen st g"
  then show "addColorIfUnique g c st = st" by (rule addColorIfUnique_seen)
next
  show "addColorIfUnique g c (addColorIfUnique g c st) = addColorIfUnique g c st"
    by (simp add: addColorIfUnique_def)
next
  assume "colors st = []"
  then show "distinct (map name_value (colors (foldl (\<lambda>s c. addColorIfUnique g c s) st cs)))"
    using foldl_addColorIfUnique_names[of st g cs] by simp
next
  assume "run evs app0 = Some st'"
  then show "distinct (map name_value (colors st'))" by (rule colors_distinct_run)
qed

theorem addColorIfUnique_idempotent_witness:
  "name_value (sample ''Red'' 0) \<in> seen (addColorIfUnique 0 (sample ''Red'' 0) app0) 0 \<and>
   addColorIfUnique 0 (sample ''Red'' 0) (addColorIfUnique 0 (sample ''Red'' 0) app0)
     = addColorIfUnique 0 (sample ''Red'' 0) app0 \<and>
   colors app0 = [] \<and>
   distinct (map name_value (colors (foldl (\<lambda>s c. addColorIfUnique 0 c s) app0
      [sample ''Red'' 0, sample ''Blue'' 240, sample ''Red'' 359]))) \<and>
   run [Effect 50 50, Resolve 0 [First] (sample ''Red'' 0),
        Resolve 0 [First] (sample ''Red'' 179), Resolve 0 [Second] (sample ''Red'' 180),
        Resolve 0 [Second] (sample ''Red'' 359)] app0 \<noteq> None \<and>
   colors (the (run [Effect 50 50, Resolve 0 [First] (sample ''Red'' 0),
        Resolve 0 [First] (sample ''Red'' 179), Resolve 0 [Second] (sample ''Red'' 180),
        Resolve 0 [Second] (sample ''Red'' 359)] app0)) = [sample ''Red'' 0] \<and>
   distinct (map name_value (colors (the (run [Effect 50 50, Resolve 0 [First] (sample ''Red'' 0),
        Resolve 0 [First] (sample ''Red'' 179), Resolve 0 [Second] (sample ''Red'' 180),
        Resolve 0 [Second] (sample ''Red'' 359)] app0))))"
proof -
  let ?evs = "[Effect 50 50, Resolve 0 [First] (sample ''Red'' 0),
        Resolve 0 [First] (sample ''Red'' 179), Resolve 0 [Second] (sample ''Red'' 180),
        Resolve 0 [Second] (sample ''Red'' 359)]"
  let ?st = "the (run ?evs app0)"
  have n: "run ?evs app0 \<noteq> None" by (simp add: run_simps)
  have h: "run ?evs app0 = Some ?st" by (rule option.collapse[OF n, symmetric])
  have c: "colors ?st = [sample ''Red'' 0]" by (simp add: run_simps)
  have d: "distinct (map name_value (colors ?st))"
    using addColorIfUnique_idempotent[of _ app0 0 "[]" ?evs ?st] h by blast
  have a: "name_value (sample ''Red'' 0) \<in> seen (addColorIfUnique 0 (sample ''Red'' 0) app0) 0 \<and>
   addColorIfUnique 0 (sample ''Red'' 0) (addColorIfUnique 0 (sample ''Red'' 0) app0)
     = addColorIfUnique 0 (sample ''Red'' 0) app0 \<and>
   colors app0 = [] \<and>
   distinct (map name_value (colors (foldl (\<lambda>s c. addColorIfUnique 0 c s) app0
      [sample ''Red'' 0, sample ''Blue'' 240, sample ''Red'' 359])))"
    using addColorIfUnique_idempotent[of "sample ''Red'' 0"
        "addColorIfUnique 0 (sample ''Red'' 0) app0" 0]
      addColorIfUnique_idempotent[of _ app0 0
        "[sample ''Red'' 0, sample ''Blue'' 240, sample ''Red'' 359]"]
    by (simp add: addColorIfUnique_def app0_def sample_def)
  show ?thesis using a n c d by blast
qed

section \<open>Termination of the search\<close>

text \<open>In a run of the hook every invocation works on hues from 0 to 359.\<close>

lemma confined_step:
  assumes "\<forall>g < runs st. confined 0 359 (root st g)" and "step ev st = Some st'"
  shows "\<forall>g < runs st'. confined 0 359 (root st' g)"
proof (cases ev)
  case (Effect s l)
  then have "st' = effect s l st" using assms(2) by simp
  then show ?thesis using assms(1) by (simp add: effect_unfold less_Suc_eq)
next
  case (Resolve g p data)
  from assms(2)[unfolded Resolve] obtain t s where
    g: "g < runs st" and r: "resolve g p data (root st g) st = Some (t, s)"
    and st': "st' = settle g (s\<lparr>root := (root s)(g := t)\<rparr>)"
    by (rule step_Resolve_cases)
  have sm: "(0::int) \<le> 0" "(359::int) \<le> 2 ^ 53" by simp_all
  have "confined 0 359 (root st g)" using assms(1) g by simp
  then have t: "confined 0 359 t" using resolve_confined[OF sm _ r] by simp
  have k: "runs s = runs st" "root s = root st" using resolve_keeps[OF r] by simp_all
  show ?thesis using assms(1) t k st' by (simp add: settle_def)
next
  case (Reject g p)
  from assms(2)[unfolded Reject] obtain t where
    g: "g < runs st" and r: "reject p (root st g) = Some t"
    and st': "st' = st\<lparr>root := (root st)(g := t)\<rparr>"
    by (rule step_Reject_cases)
  have "confined 0 359 (root st g)" using assms(1) g by simp
  then have t: "confined 0 359 t" using reject_confined[OF _ r] by simp
  show ?thesis using assms(1) t st' by simp
qed

lemma confined_run:
  "\<forall>g < runs st. confined 0 359 (root st g) \<Longrightarrow> run evs st = Some st' \<Longrightarrow>
     \<forall>g < runs st'. confined 0 359 (root st' g)"
proof (induction evs arbitrary: st)
  case Nil
  then show ?case by simp
next
  case (Cons ev evs)
  from Cons.prems(2) obtain s where s: "step ev st = Some s" and r: "run evs s = Some st'"
    by (auto split: option.splits)
  show ?case by (rule Cons.IH[OF confined_step[OF Cons.prems(1) s] r])
qed

text \<open>
  C10, as the code has it. For integers with \<open>0 \<le> start \<le> end \<le> 2 ^ 53\<close> the search
  comes to its end. The successor of the point in the middle is computed exactly; an
  interval of length two or more is split into two strictly shorter ones that lie
  inside it; an interval of length at most one is handled with no further
  invocation. One turn goes no deeper than the length of the interval, and the
  invocations it leaves work inside the interval, none of them without end. Every
  fetch that settles, fulfilled or rejected, leaves the task inside the interval and
  lowers the bound \<open>work\<close> on what the search still waits for, so that a search
  whose fetches all settle comes to its end. The hook searches \<open>[0, 179]\<close> and
  \<open>[180, 359]\<close>: in all its runs every invocation works inside \<open>[0, 359]\<close>.
\<close>

theorem findIntervals_terminates:
  "0 \<le> start \<Longrightarrow> start \<le> en \<Longrightarrow> en \<le> 2 ^ 53 \<Longrightarrow>
   (2 \<le> en - start \<longrightarrow>
      halves_shorter start en \<and>
      plus_one (mid_point start en) = mid_point start en + 1 \<and>
      start \<le> mid_point start en \<and> mid_point start en + 1 \<le> en \<and>
      mid_point start en - start < en - start \<and>
      en - (mid_point start en + 1) < en - start) \<and>
   (en - start \<le> 1 \<longrightarrow>
      depth (fst (findIntervals g start en st)) = 0 \<and>
      depth (fst (findIntervals_gotStart g start en c st)) = 0 \<and>
      depth (fst (findIntervals_gotEnd g start en c d st)) = 0) \<and>
   confined start en (fst (findIntervals g start en st)) \<and>
   depth (fst (findIntervals g start en st)) \<le> nat (en - start) - 1 \<and>
   work (fst (findIntervals g start en st)) \<le> 4 * nat (en - start) + 2 \<and>
   (confined start en t \<and> resolve g p data t st = Some (t', st') \<longrightarrow>
      confined start en t' \<and> work t' < work t) \<and>
   (confined start en t \<and> reject p t = Some t'' \<longrightarrow>
      confined start en t'' \<and> work t'' < work t) \<and>
   (run evs app0 = Some hk \<and> k < runs hk \<longrightarrow> confined 0 359 (root hk k))"
proof -
  assume p: "0 \<le> start" and l: "start \<le> en" and u: "en \<le> 2 ^ 53"
  have 1: "2 \<le> en - start \<longrightarrow>
      halves_shorter start en \<and>
      plus_one (mid_point start en) = mid_point start en + 1 \<and>
      start \<le> mid_point start en \<and> mid_point start en + 1 \<le> en \<and>
      mid_point start en - start < en - start \<and>
      en - (mid_point start en + 1) < en - start"
  proof
    assume b: "2 \<le> en - start"
    note hs = halves_up_to_2_53[OF p u b]
    have m: "start \<le> mid_point start en" "mid_point start en < en"
      using hs(1) by (simp_all add: halves_shorter_def)
    show "halves_shorter start en \<and>
      plus_one (mid_point start en) = mid_point start en + 1 \<and>
      start \<le> mid_point start en \<and> mid_point start en + 1 \<le> en \<and>
      mid_point start en - start < en - start \<and>
      en - (mid_point start en + 1) < en - start"
      using hs m by simp
  qed
  have 2: "en - start \<le> 1 \<longrightarrow>
      depth (fst (findIntervals g start en st)) = 0 \<and>
      depth (fst (findIntervals_gotStart g start en c st)) = 0 \<and>
      depth (fst (findIntervals_gotEnd g start en c d st)) = 0"
  proof
    assume "en - start \<le> 1"
    then have n: "nat (en - start) - 1 = 0" by simp
    show "depth (fst (findIntervals g start en st)) = 0 \<and>
      depth (fst (findIntervals_gotStart g start en c st)) = 0 \<and>
      depth (fst (findIntervals_gotEnd g start en c d st)) = 0"
      using findIntervals_depth(1)[of g start en st]
        findIntervals_depth(2)[of g start en c st]
        findIntervals_depth(3)[of g start en c d st] n by simp
  qed
  have 3: "confined start en (fst (findIntervals g start en st))"
    using findIntervals_confined(1)[OF p u, of start en g st] l by simp
  have 4: "depth (fst (findIntervals g start en st)) \<le> nat (en - start) - 1"
    by (rule findIntervals_depth)
  have 5: "work (fst (findIntervals g start en st)) \<le> 4 * nat (en - start) + 2"
    using p u by (rule findIntervals_work)
  have 6: "confined start en t \<and> resolve g p data t st = Some (t', st') \<longrightarrow>
      confined start en t' \<and> work t' < work t"
    using resolve_confined[OF p u, of t g p data st t' st'] by blast
  have 7: "confined start en t \<and> reject p t = Some t'' \<longrightarrow>
      confined start en t'' \<and> work t'' < work t"
    using reject_confined[of start en t p t''] by blast
  have 8: "run evs app0 = Some hk \<and> k < runs hk \<longrightarrow> confined 0 359 (root hk k)"
  proof
    assume a: "run evs app0 = Some hk \<and> k < runs hk"
    have i: "\<forall>g < runs app0. confined 0 359 (root app0 g)" by (simp add: app0_def)
    have r: "run evs app0 = Some hk" using a by simp
    have "\<forall>g < runs hk. confined 0 359 (root hk g)"
      by (rule confined_run[OF i r])
    then show "confined 0 359 (root hk k)" using a by simp
  qed
  show ?thesis using 1 2 3 4 5 6 7 8 by blast
qed

theorem findIntervals_terminates_witness:
  "(0::int) \<le> 0 \<and> (0::int) \<le> 179 \<and> (179::int) \<le> 2 ^ 53 \<and> (2::int) \<le> 179 - 0 \<and>
   halves_shorter 0 179 \<and> plus_one (mid_point 0 179) = mid_point 0 179 + 1 \<and>
   mid_point 0 179 - 0 < 179 - 0 \<and> 179 - (mid_point 0 179 + 1) < 179 - 0 \<and>
   (1::int) - 0 \<le> 1 \<and>
   depth (fst (findIntervals_gotEnd 0 0 1 (sample ''Red'' 0) (sample ''Blue'' 1)
     (effect 50 50 app0))) = 0 \<and>
   confined 0 179 (AwaitStart 0 179) \<and>
   resolve 0 [] (sample ''Red'' 0) (AwaitStart 0 179) (effect 50 50 app0) \<noteq> None \<and>
   confined 0 179
     (fst (the (resolve 0 [] (sample ''Red'' 0) (AwaitStart 0 179) (effect 50 50 app0)))) \<and>
   work (fst (the (resolve 0 [] (sample ''Red'' 0) (AwaitStart 0 179) (effect 50 50 app0))))
     < work (AwaitStart 0 179) \<and>
   reject [] (AwaitStart 0 179) = Some Failed \<and>
   work Failed < work (AwaitStart 0 179) \<and>
   run [Effect 50 50, Resolve 0 [First] (sample ''Red'' 0),
        Resolve 0 [First] (sample ''Blue'' 179)] app0 \<noteq> None \<and>
   0 < runs (the (run [Effect 50 50, Resolve 0 [First] (sample ''Red'' 0),
        Resolve 0 [First] (sample ''Blue'' 179)] app0)) \<and>
   confined 0 359 (root (the (run [Effect 50 50, Resolve 0 [First] (sample ''Red'' 0),
        Resolve 0 [First] (sample ''Blue'' 179)] app0)) 0)"
proof -
  let ?E = "effect 50 50 app0"
  let ?R = "sample ''Red'' 0"
  let ?evs = "[Effect 50 50, Resolve 0 [First] ?R, Resolve 0 [First] (sample ''Blue'' 179)]"
  let ?hk = "the (run ?evs app0)"
  let ?t' = "fst (findIntervals_gotStart 0 0 179 ?R (getColor_resume 0 ?R ?E))"
  let ?s' = "snd (findIntervals_gotStart 0 0 179 ?R (getColor_resume 0 ?R ?E))"
  have h: "(0::int) \<le> 0" "(0::int) \<le> 179" "(179::int) \<le> 2 ^ 53" "(0::int) \<le> 1"
    "(1::int) \<le> 2 ^ 53" "(2::int) \<le> 179 - 0" "(1::int) - 0 \<le> 1"
    by simp_all
  have n: "run ?evs app0 \<noteq> None" by (simp add: run_simps)
  have hk: "run ?evs app0 = Some ?hk" by (rule option.collapse[OF n, symmetric])
  have k: "0 < runs ?hk" by (simp add: run_simps)
  have w: "confined 0 179 (AwaitStart 0 179)" by simp
  have r: "resolve 0 [] ?R (AwaitStart 0 179) ?E = Some (?t', ?s')" by simp
  have j: "reject [] (AwaitStart 0 179) = Some Failed" by simp
  note a = findIntervals_terminates[OF h(1,2,3), where g = 0 and st = ?E and p = "[]"
      and data = ?R and t = "AwaitStart 0 179" and t' = ?t' and st' = ?s'
      and t'' = Failed and evs = ?evs and hk = ?hk and k = 0]
  note b = findIntervals_terminates[OF h(1,4,5), where g = 0 and st = ?E
      and c = ?R and d = "sample ''Blue'' 1"]
  have 1: "halves_shorter 0 179" using a h(6) by blast
  have 2: "plus_one (mid_point 0 179) = mid_point 0 179 + 1" using a h(6) by blast
  have 3: "mid_point 0 179 - 0 < 179 - 0" using a h(6) by blast
  have 4: "179 - (mid_point 0 179 + 1) < 179 - 0" using a h(6) by blast
  have 5: "depth (fst (findIntervals_gotEnd 0 0 1 ?R (sample ''Blue'' 1) ?E)) = 0"
    using b h(7) by blast
  have 6: "confined 0 179 ?t' \<and> work ?t' < work (AwaitStart 0 179)" using a w r by blast
  have 7: "work Failed < work (AwaitStart 0 179)" using a w j by blast
  have 8: "confined 0 359 (root ?hk 0)" using a hk k by blast
  have 9: "resolve 0 [] ?R (AwaitStart 0 179) ?E \<noteq> None" using r by simp
  have e: "fst (the (resolve 0 [] ?R (AwaitStart 0 179) ?E)) = ?t'" using r by simp
  show ?thesis unfolding e using h 1 2 3 4 5 w 9 6 j 7 n k 8 by blast
qed

text \<open>
  The claim as the specification words it, for every pair of integers, fails. The
  numbers of the program are doubles. For \<open>start = 2 ^ 53\<close> and \<open>end = 2 ^ 53 + 2\<close>,
  both doubles, the sum \<open>2 ^ 54 + 2\<close> is rounded to \<open>2 ^ 54\<close>, so \<open>mid\<close> is \<open>start\<close>,
  and \<open>mid + 1\<close> is rounded to \<open>start\<close> again: the second half is \<open>[start, end]\<close>, not
  shorter, and the search for it never returns.
\<close>

theorem findIntervals_terminates_counterexample:
  "(0::int) \<le> 2 ^ 53 \<and> (2::int) ^ 53 \<le> 2 ^ 53 + 2 \<and>
   js_number (2 ^ 53) \<and> js_number (2 ^ 53 + 2) \<and>
   (2::int) \<le> (2 ^ 53 + 2) - 2 ^ 53 \<and>
   mid_point (2 ^ 53) (2 ^ 53 + 2) = 2 ^ 53 \<and>
   plus_one (mid_point (2 ^ 53) (2 ^ 53 + 2)) = 2 ^ 53 \<and>
   (2 ^ 53 + 2) - plus_one (mid_point (2 ^ 53) (2 ^ 53 + 2)) = (2 ^ 53 + 2) - (2 ^ 53 :: int) \<and>
   findIntervals_gotEnd 0 (2 ^ 53) (2 ^ 53 + 2) (sample ''Red'' (2 ^ 53))
     (sample ''Blue'' (2 ^ 53 + 2)) (effect 50 50 app0) = (Forever, effect 50 50 app0) \<and>
   \<not> confined (2 ^ 53) (2 ^ 53 + 2)
     (fst (findIntervals_gotEnd 0 (2 ^ 53) (2 ^ 53 + 2) (sample ''Red'' (2 ^ 53))
       (sample ''Blue'' (2 ^ 53 + 2)) (effect 50 50 app0)))"
proof -
  have m: "mid_point (2 ^ 53) (2 ^ 53 + 2) = 2 ^ 53" by (rule halves_2_53)
  have n: "plus_one (mid_point (2 ^ 53) (2 ^ 53 + 2)) = 2 ^ 53"
    unfolding m by (rule halves_2_53)
  have h: "\<not> halves_shorter (2 ^ 53) (2 ^ 53 + 2)"
    by (rule halves_not_shorter_2_53)
  have c: "\<not> cancelled (effect 50 50 app0) 0" by (simp add: effect_unfold app0_def)
  have f: "findIntervals_gotEnd 0 (2 ^ 53) (2 ^ 53 + 2) (sample ''Red'' (2 ^ 53))
     (sample ''Blue'' (2 ^ 53 + 2)) (effect 50 50 app0) = (Forever, effect 50 50 app0)"
    using h c by (simp add: findIntervals_gotEnd.simps sample_def)
  have j: "js_number (2 ^ 53)" "js_number (2 ^ 53 + 2)" by (rule halves_2_53)+
  show ?thesis unfolding f unfolding n using m j by simp
qed

end
